theory Spec2Isabelle
  imports Complex_Main "HOL-Library.Sublist"
begin

section \<open>Data model\<close>

text \<open>
  The gateway keeps three things per image: the raw bytes and a thumbnail in an object
  store, and one row of metadata in a SQL table. An \<open>ObjectRef\<close> (bucket, name) is the
  key shared by both stores.

  Errors are values. \<open>KeyError\<close> is the not-found condition of both stores,
  \<open>HTTPException\<close> carries the status code the endpoint answers with, and the remaining
  constructors are the exceptions the source names or lets through.
\<close>

datatype error =
    KeyError
  | MetadataOperationError
  | ObjectOperationError
  | NotImplementedError
  | IntegrityError
  | MultipleResultsFound
  | HTTPException nat

type_synonym bytes = string

record ObjectRef =
  bucket :: string
  name :: string

text \<open>
  Modelled from the spec: \<open>schemas.py\<close> and \<open>models.py\<close> (the Pydantic schemas and the ORM
  table) are not among the source files. The fields are the ones section 3 of the
  specification lists and the ones the store reads (\<open>location_lat\<close>, \<open>location_lon\<close>,
  \<open>bucket\<close>, \<open>key\<close>, \<open>format\<close>). Dates are day numbers, decimal quantities are reals.
\<close>

datatype PlatformType = GROUND | AERIAL

datatype ImageFormat = GIF | TIFF | JPEG | BMP | PNG

type_synonym date = int

record GeoPoint =
  latitude_deg :: real
  longitude_deg :: real

record UavImageMetadata =
  m_platform_type :: PlatformType
  m_name :: string
  m_notes :: string
  m_camera :: string
  m_session_number :: int
  m_sequence_number :: int
  m_capture_date :: date
  m_location_description :: string
  m_location :: GeoPoint
  m_altitude_meters :: real
  m_gsd_cm_px :: real
  m_format :: ImageFormat

text \<open>One row of the \<open>Image\<close> table.\<close>

record Image =
  i_bucket :: string
  i_key :: string
  i_platform_type :: PlatformType
  i_name :: string
  i_notes :: string
  i_camera :: string
  i_session_number :: int
  i_sequence_number :: int
  i_capture_date :: date
  i_location_description :: string
  i_location_lat :: real
  i_location_lon :: real
  i_altitude_meters :: real
  i_gsd_cm_px :: real
  i_format :: ImageFormat

datatype 'a Range = Range (min_value: 'a) (max_value: 'a)

record BoundingBox =
  south_west :: GeoPoint
  north_east :: GeoPoint

record ImageQuery =
  q_platform_type :: "PlatformType option"
  q_name :: "string option"
  q_notes :: "string option"
  q_camera :: "string option"
  q_session_numbers :: "int Range option"
  q_sequence_numbers :: "int Range option"
  q_capture_dates :: "date Range option"
  q_bounding_box :: "BoundingBox option"
  q_location_description :: "string option"
  q_altitude_meters :: "real Range option"
  q_gsd_cm_px :: "real Range option"

datatype Field = NAME | SESSION_NUM | SEQUENCE_NUM | CAPTURE_DATE | CAMERA

record Ordering =
  field :: Field
  ascending :: bool

section \<open>SQL queries\<close>

text \<open>
  A \<open>Select\<close> is the statement SQLAlchemy builds: \<open>where\<close> appends criteria that the
  database conjoins, \<open>order_by\<close> appends sort keys, \<open>offset\<close> and \<open>limit\<close> set the window.
  Criteria are kept as syntax, so that what the translation adds can be read off.
\<close>

datatype column =
    Col_bucket
  | Col_key
  | Col_platform_type
  | Col_name
  | Col_notes
  | Col_camera
  | Col_session_number
  | Col_sequence_number
  | Col_capture_date
  | Col_location_description
  | Col_location_lat
  | Col_location_lon
  | Col_altitude_meters
  | Col_gsd_cm_px

datatype sqlval =
    Enum PlatformType
  | Text string
  | Integer int
  | Date date
  | Float real

datatype clause =
    Equals column sqlval
  | Like column string
  | GreaterEq column sqlval
  | LessEq column sqlval

record Select =
  sel_where :: "clause list"
  sel_order_by :: "(column \<times> bool) list"
  sel_offset :: nat
  sel_limit :: "nat option"

definition select_Image :: Select where
  "select_Image = \<lparr>sel_where = [], sel_order_by = [], sel_offset = 0, sel_limit = None\<rparr>"

fun column_value :: "column \<Rightarrow> Image \<Rightarrow> sqlval" where
  "column_value Col_bucket r = Text (i_bucket r)"
| "column_value Col_key r = Text (i_key r)"
| "column_value Col_platform_type r = Enum (i_platform_type r)"
| "column_value Col_name r = Text (i_name r)"
| "column_value Col_notes r = Text (i_notes r)"
| "column_value Col_camera r = Text (i_camera r)"
| "column_value Col_session_number r = Integer (i_session_number r)"
| "column_value Col_sequence_number r = Integer (i_sequence_number r)"
| "column_value Col_capture_date r = Date (i_capture_date r)"
| "column_value Col_location_description r = Text (i_location_description r)"
| "column_value Col_location_lat r = Float (i_location_lat r)"
| "column_value Col_location_lon r = Float (i_location_lon r)"
| "column_value Col_altitude_meters r = Float (i_altitude_meters r)"
| "column_value Col_gsd_cm_px r = Float (i_gsd_cm_px r)"

text \<open>
  What the database does with a statement is not code of the repository; it is the
  usual reading of SQL. Strings compare by character code. \<open>LIKE\<close> knows two wildcards:
  \<open>%\<close> stands for any run of characters and \<open>_\<close> for exactly one; every other pattern
  character stands for itself.
\<close>

fun str_le :: "string \<Rightarrow> string \<Rightarrow> bool" where
  "str_le [] t = True"
| "str_le (c # cs) [] = False"
| "str_le (c # cs) (d # ds) =
     ((of_char c :: nat) < of_char d \<or> (c = d \<and> str_le cs ds))"

fun sql_le :: "sqlval \<Rightarrow> sqlval \<Rightarrow> bool" where
  "sql_le (Integer a) (Integer b) = (a \<le> b)"
| "sql_le (Date a) (Date b) = (a \<le> b)"
| "sql_le (Float a) (Float b) = (a \<le> b)"
| "sql_le (Text a) (Text b) = str_le a b"
| "sql_le a b = False"

fun like_match :: "string \<Rightarrow> string \<Rightarrow> bool" where
  "like_match [] [] = True"
| "like_match [] (c # cs) = False"
| "like_match (p # ps) [] = (p = CHR ''%'' \<and> like_match ps [])"
| "like_match (p # ps) (c # cs) =
     (if p = CHR ''%'' then like_match ps (c # cs) \<or> like_match (p # ps) cs
      else (p = CHR ''_'' \<or> p = c) \<and> like_match ps cs)"

fun eval_clause :: "clause \<Rightarrow> Image \<Rightarrow> bool" where
  "eval_clause (Equals col v) r = (column_value col r = v)"
| "eval_clause (Like col pattern) r =
     (case column_value col r of Text s \<Rightarrow> like_match pattern s | _ \<Rightarrow> False)"
| "eval_clause (GreaterEq col v) r = sql_le v (column_value col r)"
| "eval_clause (LessEq col v) r = sql_le (column_value col r) v"

definition row_matches :: "Select \<Rightarrow> Image \<Rightarrow> bool" where
  "row_matches sel r = list_all (\<lambda>c. eval_clause c r) (sel_where sel)"

fun row_le :: "(column \<times> bool) list \<Rightarrow> Image \<Rightarrow> Image \<Rightarrow> bool" where
  "row_le [] a b = True"
| "row_le ((col, asc) # keys) a b =
     (if column_value col a = column_value col b then row_le keys a b
      else if asc then sql_le (column_value col a) (column_value col b)
      else sql_le (column_value col b) (column_value col a))"

fun insert_row :: "(column \<times> bool) list \<Rightarrow> Image \<Rightarrow> Image list \<Rightarrow> Image list" where
  "insert_row keys a [] = [a]"
| "insert_row keys a (b # bs) =
     (if row_le keys a b then a # b # bs else b # insert_row keys a bs)"

fun sort_rows :: "(column \<times> bool) list \<Rightarrow> Image list \<Rightarrow> Image list" where
  "sort_rows keys [] = []"
| "sort_rows keys (a # as) = insert_row keys a (sort_rows keys as)"

definition ordered_matches :: "Select \<Rightarrow> Image list \<Rightarrow> Image list" where
  "ordered_matches sel tbl = sort_rows (sel_order_by sel) (filter (row_matches sel) tbl)"

definition execute :: "Select \<Rightarrow> Image list \<Rightarrow> Image list" where
  "execute sel tbl =
     (let rows = drop (sel_offset sel) (ordered_matches sel tbl)
      in case sel_limit sel of None \<Rightarrow> rows | Some n \<Rightarrow> take n rows)"

section \<open>The SQL metadata store\<close>

subsection \<open>Conversion between the schema and the table row\<close>

definition orm_image_to_pydantic :: "Image \<Rightarrow> UavImageMetadata" where
  "orm_image_to_pydantic img =
     (let metadata =
            \<lparr>m_platform_type = i_platform_type img,
             m_name = i_name img,
             m_notes = i_notes img,
             m_camera = i_camera img,
             m_session_number = i_session_number img,
             m_sequence_number = i_sequence_number img,
             m_capture_date = i_capture_date img,
             m_location_description = i_location_description img,
             m_location = \<lparr>latitude_deg = 0, longitude_deg = 0\<rparr>,
             m_altitude_meters = i_altitude_meters img,
             m_gsd_cm_px = i_gsd_cm_px img,
             m_format = i_format img\<rparr>;
          location =
            \<lparr>latitude_deg = i_location_lat img, longitude_deg = i_location_lon img\<rparr>
      in metadata\<lparr>m_location := location\<rparr>)"

definition pydantic_to_orm_image :: "ObjectRef \<Rightarrow> UavImageMetadata \<Rightarrow> Image" where
  "pydantic_to_orm_image object_id metadata =
     (let location_lat = latitude_deg (m_location metadata);
          location_lon = longitude_deg (m_location metadata)
      in \<lparr>i_bucket = bucket object_id,
          i_key = name object_id,
          i_platform_type = m_platform_type metadata,
          i_name = m_name metadata,
          i_notes = m_notes metadata,
          i_camera = m_camera metadata,
          i_session_number = m_session_number metadata,
          i_sequence_number = m_sequence_number metadata,
          i_capture_date = m_capture_date metadata,
          i_location_description = m_location_description metadata,
          i_location_lat = location_lat,
          i_location_lon = location_lon,
          i_altitude_meters = m_altitude_meters metadata,
          i_gsd_cm_px = m_gsd_cm_px metadata,
          i_format = m_format metadata\<rparr>)"

subsection \<open>Lookup, insertion and deletion by key\<close>

definition has_id :: "ObjectRef \<Rightarrow> Image \<Rightarrow> bool" where
  "has_id object_id img \<longleftrightarrow>
     i_bucket img = bucket object_id \<and> i_key img = name object_id"

text \<open>
  \<open>scalars().one()\<close> returns the only row, raises \<open>NoResultFound\<close> (turned into
  \<open>KeyError\<close>) when there is none, and raises \<open>MultipleResultsFound\<close> otherwise.
\<close>

definition get_by_id :: "ObjectRef \<Rightarrow> Image list \<Rightarrow> error + Image" where
  "get_by_id object_id tbl =
     (case filter (has_id object_id) tbl of
        [] \<Rightarrow> Inl KeyError
      | [img] \<Rightarrow> Inr img
      | _ \<Rightarrow> Inl MultipleResultsFound)"

text \<open>
  Modelled from the spec: the table declaration is not among the source files; the
  persisted layout has one row per (bucket, name), so the insertion of a second row
  under a key that is present is rejected by the database.
\<close>

definition add :: "ObjectRef \<Rightarrow> UavImageMetadata \<Rightarrow> Image list \<Rightarrow> error + Image list" where
  "add object_id metadata tbl =
     (let img = pydantic_to_orm_image object_id metadata
      in if list_ex (has_id object_id) tbl then Inl IntegrityError
         else Inr (tbl @ [img]))"

definition get :: "ObjectRef \<Rightarrow> Image list \<Rightarrow> error + UavImageMetadata" where
  "get object_id tbl =
     (case get_by_id object_id tbl of
        Inl e \<Rightarrow> Inl e
      | Inr img \<Rightarrow> Inr (orm_image_to_pydantic img))"

definition delete :: "ObjectRef \<Rightarrow> Image list \<Rightarrow> error + Image list" where
  "delete object_id tbl =
     (case get_by_id object_id tbl of
        Inl e \<Rightarrow> Inl e
      | Inr orm_image \<Rightarrow> Inr (filter (\<lambda>r. \<not> has_id object_id r) tbl))"

subsection \<open>Query translation\<close>

text \<open>
  \<open>__update_query\<close> dispatches on the run-time type of the filter value. The value of a
  query field is therefore first seen as a dynamically typed value; a value of any
  other type reaches the base implementation, which raises \<open>NotImplementedError\<close>.
\<close>

datatype filter_value =
    NoneValue
  | EnumValue sqlval
  | StrValue string
  | RangeValue sqlval sqlval
  | OtherValue

fun update_query :: "filter_value \<Rightarrow> column \<Rightarrow> Select \<Rightarrow> error + Select" where
  "update_query NoneValue col query = Inr query"
| "update_query (EnumValue v) col query =
     Inr (query\<lparr>sel_where := sel_where query @ [Equals col v]\<rparr>)"
| "update_query (StrValue v) col query =
     Inr (query\<lparr>sel_where := sel_where query @ [Like col (''%'' @ v @ ''%'')]\<rparr>)"
| "update_query (RangeValue lo hi) col query =
     Inr (query\<lparr>sel_where := sel_where query @ [GreaterEq col lo, LessEq col hi]\<rparr>)"
| "update_query OtherValue col query = Inl NotImplementedError"

definition update_location_query ::
  "BoundingBox option \<Rightarrow> Select \<Rightarrow> column \<Rightarrow> column \<Rightarrow> Select" where
  "update_location_query v query lat_column lon_column =
     (case v of
        None \<Rightarrow> query
      | Some box \<Rightarrow>
          query\<lparr>sel_where := sel_where query @
            [LessEq lat_column (Float (latitude_deg (north_east box))),
             GreaterEq lat_column (Float (latitude_deg (south_west box))),
             LessEq lon_column (Float (longitude_deg (north_east box))),
             GreaterEq lon_column (Float (longitude_deg (south_west box)))]\<rparr>)"

definition enum_filter :: "PlatformType option \<Rightarrow> filter_value" where
  "enum_filter v = (case v of None \<Rightarrow> NoneValue | Some p \<Rightarrow> EnumValue (Enum p))"

definition str_filter :: "string option \<Rightarrow> filter_value" where
  "str_filter v = (case v of None \<Rightarrow> NoneValue | Some s \<Rightarrow> StrValue s)"

definition range_filter :: "('a \<Rightarrow> sqlval) \<Rightarrow> 'a Range option \<Rightarrow> filter_value" where
  "range_filter conv v =
     (case v of
        None \<Rightarrow> NoneValue
      | Some r \<Rightarrow> RangeValue (conv (min_value r)) (conv (max_value r)))"

fun apply_query_updates :: "(filter_value \<times> column) list \<Rightarrow> Select \<Rightarrow> error + Select" where
  "apply_query_updates [] query = Inr query"
| "apply_query_updates ((v, col) # updates) query =
     (case update_query v col query of
        Inl e \<Rightarrow> Inl e
      | Inr query' \<Rightarrow> apply_query_updates updates query')"

definition field_updates :: "ImageQuery \<Rightarrow> (filter_value \<times> column) list" where
  "field_updates v =
     [(enum_filter (q_platform_type v), Col_platform_type),
      (str_filter (q_name v), Col_name),
      (str_filter (q_notes v), Col_notes),
      (str_filter (q_camera v), Col_camera),
      (range_filter Integer (q_session_numbers v), Col_session_number),
      (range_filter Integer (q_sequence_numbers v), Col_sequence_number),
      (range_filter Date (q_capture_dates v), Col_capture_date),
      (str_filter (q_location_description v), Col_location_description),
      (range_filter Float (q_altitude_meters v), Col_altitude_meters),
      (range_filter Float (q_gsd_cm_px v), Col_gsd_cm_px)]"

definition update_image_query :: "ImageQuery \<Rightarrow> Select \<Rightarrow> error + Select" where
  "update_image_query v query =
     (case apply_query_updates (field_updates v) query of
        Inl e \<Rightarrow> Inl e
      | Inr query' \<Rightarrow>
          Inr (update_location_query (q_bounding_box v) query' Col_location_lat Col_location_lon))"

fun ORDER_TO_COLUMN :: "Field \<Rightarrow> column" where
  "ORDER_TO_COLUMN NAME = Col_name"
| "ORDER_TO_COLUMN SESSION_NUM = Col_session_number"
| "ORDER_TO_COLUMN SEQUENCE_NUM = Col_sequence_number"
| "ORDER_TO_COLUMN CAPTURE_DATE = Col_capture_date"
| "ORDER_TO_COLUMN CAMERA = Col_camera"

definition update_query_order :: "Ordering \<Rightarrow> Select \<Rightarrow> Select" where
  "update_query_order order query =
     query\<lparr>sel_order_by := sel_order_by query @ [(ORDER_TO_COLUMN (field order), ascending order)]\<rparr>"

text \<open>
  The statement \<open>query\<close> sends: the filters, then the orderings in the order listed,
  then the window.
\<close>

definition selection_of ::
  "ImageQuery \<Rightarrow> Ordering list \<Rightarrow> nat \<Rightarrow> nat \<Rightarrow> error + Select" where
  "selection_of q orderings skip_first max_num_results =
     (case update_image_query q select_Image of
        Inl e \<Rightarrow> Inl e
      | Inr selection \<Rightarrow>
          Inr ((foldl (\<lambda>s order. update_query_order order s) selection orderings)
                 \<lparr>sel_offset := skip_first, sel_limit := Some max_num_results\<rparr>))"

definition query ::
  "ImageQuery \<Rightarrow> Ordering list \<Rightarrow> nat \<Rightarrow> nat \<Rightarrow> Image list \<Rightarrow> error + ObjectRef list" where
  "query q orderings skip_first max_num_results tbl =
     (case selection_of q orderings skip_first max_num_results of
        Inl e \<Rightarrow> Inl e
      | Inr selection \<Rightarrow>
          Inr (map (\<lambda>result. \<lparr>bucket = i_bucket result, name = i_key result\<rparr>)
                 (execute selection tbl)))"

subsection \<open>The query endpoint\<close>

record QueryResponse =
  image_ids :: "ObjectRef list"
  page_num :: int
  is_last_page :: bool

text \<open>
  \<open>results_per_page\<close> and \<open>page_num\<close> are declared \<open>Query(..., gt=0)\<close>: the framework
  answers 422 before the endpoint runs when either is not positive.
\<close>

definition query_images ::
  "ImageQuery \<Rightarrow> Ordering list \<Rightarrow> int \<Rightarrow> int \<Rightarrow> Image list \<Rightarrow> error + QueryResponse" where
  "query_images q orderings results_per_page page_no tbl =
     (if \<not> (results_per_page > 0 \<and> page_no > 0) then Inl (HTTPException 422)
      else
        let skip_first = (page_no - 1) * results_per_page
        in case query q orderings (nat skip_first) (nat results_per_page) tbl of
             Inl e \<Rightarrow> Inl e
           | Inr ids \<Rightarrow>
               Inr \<lparr>image_ids = ids, page_num = page_no,
                    is_last_page = (int (length ids) < results_per_page)\<rparr>)"

section \<open>Backends\<close>

text \<open>
  Modelled from the spec: the object store (\<open>backends/objects\<close>) is not among the source
  files. Its interface is the one of section 6 of the specification: \<open>create_object\<close>
  stores a byte stream under an \<open>ObjectRef\<close>, \<open>get_object\<close> and \<open>delete_object\<close> fail
  not-found (\<open>KeyError\<close>, which is what the endpoints catch) when nothing is stored
  there. The metadata store is the SQL store above.

  A write can also be refused by its backend: an object write with
  \<open>ObjectOperationError\<close>, a metadata add with \<open>MetadataOperationError\<close>. Which writes
  are refused is not under the program's control; it is the parameter \<open>faults\<close>. A
  refused write leaves its store as it was.
\<close>

record backends =
  object_store :: "ObjectRef \<rightharpoonup> bytes"
  metadata_store :: "Image list"

datatype call =
    Create_object ObjectRef bytes
  | Get_object ObjectRef
  | Delete_object ObjectRef
  | Metadata_add ObjectRef UavImageMetadata
  | Metadata_get ObjectRef
  | Metadata_delete ObjectRef

datatype result = Done | Stream bytes | Metadata UavImageMetadata

fun perform :: "(call \<Rightarrow> bool) \<Rightarrow> call \<Rightarrow> backends \<Rightarrow> (error + result) \<times> backends" where
  "perform faults (Create_object ref data) bk =
     (if faults (Create_object ref data) then (Inl ObjectOperationError, bk)
      else (Inr Done, bk\<lparr>object_store := (object_store bk)(ref \<mapsto> data)\<rparr>))"
| "perform faults (Get_object ref) bk =
     (case object_store bk ref of
        None \<Rightarrow> (Inl KeyError, bk)
      | Some data \<Rightarrow> (Inr (Stream data), bk))"
| "perform faults (Delete_object ref) bk =
     (case object_store bk ref of
        None \<Rightarrow> (Inl KeyError, bk)
      | Some data \<Rightarrow> (Inr Done, bk\<lparr>object_store := (object_store bk)(ref := None)\<rparr>))"
| "perform faults (Metadata_add ref metadata) bk =
     (if faults (Metadata_add ref metadata) then (Inl MetadataOperationError, bk)
      else case add ref metadata (metadata_store bk) of
             Inl e \<Rightarrow> (Inl e, bk)
           | Inr tbl \<Rightarrow> (Inr Done, bk\<lparr>metadata_store := tbl\<rparr>))"
| "perform faults (Metadata_get ref) bk =
     (case get ref (metadata_store bk) of
        Inl e \<Rightarrow> (Inl e, bk)
      | Inr metadata \<Rightarrow> (Inr (Metadata metadata), bk))"
| "perform faults (Metadata_delete ref) bk =
     (case delete ref (metadata_store bk) of
        Inl e \<Rightarrow> (Inl e, bk)
      | Inr tbl \<Rightarrow> (Inr Done, bk\<lparr>metadata_store := tbl\<rparr>))"

section \<open>Concurrent sub-operations\<close>

text \<open>
  Each endpoint below creates its sub-operations as tasks with \<open>asyncio.create_task\<close>
  and awaits \<open>asyncio.gather\<close> of them inside \<open>try\<close>. The tasks then run
  interleaved on one event loop, in an order the program does not choose. \<open>gather\<close>
  (without \<open>return_exceptions\<close>) raises the first exception a task raises, as soon as it
  is raised, and leaves the other tasks running; when every task has returned it returns
  their results in the order of the tasks.

  The model is a step function over the state of one request. A task is one call to a
  backend, whose effect on the store takes place at one instant: the step \<open>Task i\<close>.
  The awaiting coroutine is \<open>Main\<close>: its first step wakes it up out of \<open>gather\<close> (it is
  possible only once \<open>gather\<close> has a result or an exception) and enters the matching
  \<open>except\<close> clause or returns; each further step is one awaited call of that clause. A
  schedule is any list of such steps; a step that is not possible does nothing.
\<close>

datatype actor = Task nat | Main

datatype status = Pending | Returned result | Raised error | Cancelled

text \<open>
  What an endpoint returns: \<open>Null\<close> is the \<open>None\<close> of \<open>delete_image\<close>; a
  \<open>StreamingResponse\<close> carries the stream and its media type.
\<close>

datatype response =
    CreateResponse ObjectRef
  | Null
  | StreamingResponse bytes string

datatype pc =
    Awaiting
  | Handling "call list" error
  | Responded "error + response"

text \<open>
  An \<open>except\<close> clause: whether it cancels the tasks, the calls it awaits one after the
  other, and the exception it raises at its end. An exception raised by one of its calls
  leaves the clause at once and is what the endpoint raises.
\<close>

record handler =
  cancel :: bool
  compensate :: "call list"
  reraise :: error

record program =
  tasks :: "call list"
  handle :: "error \<Rightarrow> handler"
  respond :: "result list \<Rightarrow> error + response"

record loop =
  stores :: backends
  statuses :: "status list"
  gather_exc :: "error option"
  pc :: pc
  log :: "(call \<times> (error + result)) list"

definition uncaught :: "error \<Rightarrow> handler" where
  "uncaught e = \<lparr>cancel = False, compensate = [], reraise = e\<rparr>"

definition init :: "program \<Rightarrow> backends \<Rightarrow> loop" where
  "init prog bk =
     \<lparr>stores = bk, statuses = map (\<lambda>c. Pending) (tasks prog), gather_exc = None,
      pc = Awaiting, log = []\<rparr>"

fun status_of :: "error + result \<Rightarrow> status" where
  "status_of (Inl e) = Raised e"
| "status_of (Inr v) = Returned v"

fun first_exc :: "error option \<Rightarrow> error + result \<Rightarrow> error option" where
  "first_exc (Some e) r = Some e"
| "first_exc None (Inl e) = Some e"
| "first_exc None (Inr v) = None"

fun result_of :: "status \<Rightarrow> result option" where
  "result_of (Returned v) = Some v"
| "result_of s = None"

fun cancel_task :: "status \<Rightarrow> status" where
  "cancel_task Pending = Cancelled"
| "cancel_task s = s"

definition run_task :: "program \<Rightarrow> (call \<Rightarrow> bool) \<Rightarrow> nat \<Rightarrow> loop \<Rightarrow> loop" where
  "run_task prog faults i st =
     (if i < length (tasks prog) \<and> i < length (statuses st) \<and> statuses st ! i = Pending then
        case perform faults (tasks prog ! i) (stores st) of
          (r, bk) \<Rightarrow>
            st\<lparr>stores := bk,
               statuses := (statuses st)[i := status_of r],
               gather_exc := first_exc (gather_exc st) r\<rparr>
      else st)"

definition enter_handler :: "handler \<Rightarrow> loop \<Rightarrow> loop" where
  "enter_handler h st =
     st\<lparr>statuses := (if cancel h then map cancel_task (statuses st) else statuses st),
        pc := (case compensate h of
                 [] \<Rightarrow> Responded (Inl (reraise h))
               | c # cs \<Rightarrow> Handling (c # cs) (reraise h))\<rparr>"

definition run_main :: "program \<Rightarrow> (call \<Rightarrow> bool) \<Rightarrow> loop \<Rightarrow> loop" where
  "run_main prog faults st =
     (case pc st of
        Awaiting \<Rightarrow>
          (case gather_exc st of
             Some e \<Rightarrow> enter_handler (handle prog e) st
           | None \<Rightarrow>
               (case those (map result_of (statuses st)) of
                  Some rs \<Rightarrow> st\<lparr>pc := Responded (respond prog rs)\<rparr>
                | None \<Rightarrow> st))
      | Handling [] e \<Rightarrow> st\<lparr>pc := Responded (Inl e)\<rparr>
      | Handling (c # cs) e \<Rightarrow>
          (case perform faults c (stores st) of
             (r, bk) \<Rightarrow>
               st\<lparr>stores := bk,
                  log := log st @ [(c, r)],
                  pc := (case r of
                           Inl e' \<Rightarrow> Responded (Inl e')
                         | Inr v \<Rightarrow> if cs = [] then Responded (Inl e) else Handling cs e)\<rparr>)
      | Responded r \<Rightarrow> st)"

fun step :: "program \<Rightarrow> (call \<Rightarrow> bool) \<Rightarrow> loop \<Rightarrow> actor \<Rightarrow> loop" where
  "step prog faults st (Task i) = run_task prog faults i st"
| "step prog faults st Main = run_main prog faults st"

definition exec :: "program \<Rightarrow> (call \<Rightarrow> bool) \<Rightarrow> actor list \<Rightarrow> loop \<Rightarrow> loop" where
  "exec prog faults sched st = foldl (step prog faults) st sched"

text \<open>
  Every task completes and the coroutine runs to its end, whatever the schedule: after
  the steps of the schedule, the tasks still pending complete, and the coroutine takes
  the steps it has left. A schedule that leaves nothing to do here is any interleaving.
\<close>

fun steps_left :: "pc \<Rightarrow> nat" where
  "steps_left (Handling cs e) = Suc (length cs)"
| "steps_left p = 0"

definition run :: "program \<Rightarrow> (call \<Rightarrow> bool) \<Rightarrow> actor list \<Rightarrow> backends \<Rightarrow> loop" where
  "run prog faults sched bk =
     (let st = exec prog faults (sched @ map Task [0..<length (tasks prog)] @ [Main])
                 (init prog bk)
      in exec prog faults (replicate (steps_left (pc st)) Main) st)"

section \<open>The image endpoints\<close>

definition thumbnail_id :: "ObjectRef \<Rightarrow> ObjectRef" where
  "thumbnail_id object_id =
     (let thumbnail_name = name object_id @ ''.thumbnail''
      in \<lparr>bucket = bucket object_id, name = thumbnail_name\<rparr>)"

fun IMAGE_FORMAT_TO_MIME_TYPES :: "ImageFormat \<Rightarrow> string" where
  "IMAGE_FORMAT_TO_MIME_TYPES GIF = ''image/gif''"
| "IMAGE_FORMAT_TO_MIME_TYPES TIFF = ''image/tiff''"
| "IMAGE_FORMAT_TO_MIME_TYPES JPEG = ''image/jpeg''"
| "IMAGE_FORMAT_TO_MIME_TYPES BMP = ''image/bmp''"
| "IMAGE_FORMAT_TO_MIME_TYPES PNG = ''image/png''"

text \<open>
  \<open>create_uav_image\<close>. The bucket comes from \<open>use_bucket\<close> and the name from
  \<open>uuid.uuid4().hex\<close>; both are parameters here, and so is the thumbnail generator, an
  opaque function from bytes to bytes. The upload is read once into \<open>image_bytes\<close> and
  rewound, so the object written is \<open>image_bytes\<close>.
\<close>

definition create_program ::
  "(bytes \<Rightarrow> bytes) \<Rightarrow> UavImageMetadata \<Rightarrow> bytes \<Rightarrow> ObjectRef \<Rightarrow> program" where
  "create_program create_thumbnail metadata image_bytes object_id =
     (let object_task = Create_object object_id image_bytes;
          metadata_task = Metadata_add object_id metadata;
          thumbnail_object_id = thumbnail_id object_id;
          thumbnail_task = Create_object thumbnail_object_id (create_thumbnail image_bytes)
      in \<lparr>tasks = [object_task, metadata_task, thumbnail_task],
          handle = (\<lambda>error.
            case error of
              MetadataOperationError \<Rightarrow>
                \<lparr>cancel = False,
                 compensate = [Delete_object object_id, Delete_object thumbnail_object_id],
                 reraise = error\<rparr>
            | ObjectOperationError \<Rightarrow>
                \<lparr>cancel = False,
                 compensate = [Metadata_delete object_id],
                 reraise = error\<rparr>
            | _ \<Rightarrow> uncaught error),
          respond = (\<lambda>rs. Inr (CreateResponse object_id))\<rparr>)"

definition create_uav_image ::
  "actor list \<Rightarrow> (call \<Rightarrow> bool) \<Rightarrow> (bytes \<Rightarrow> bytes) \<Rightarrow> UavImageMetadata \<Rightarrow> bytes \<Rightarrow>
   string \<Rightarrow> string \<Rightarrow> backends \<Rightarrow> loop" where
  "create_uav_image sched faults create_thumbnail metadata image_bytes bkt unique_name bk =
     (let object_id = \<lparr>bucket = bkt, name = unique_name\<rparr>
      in run (create_program create_thumbnail metadata image_bytes object_id) faults sched bk)"

definition delete_program :: "ObjectRef \<Rightarrow> program" where
  "delete_program object_id =
     (let object_task = Delete_object object_id;
          metadata_task = Metadata_delete object_id
      in \<lparr>tasks = [object_task, metadata_task],
          handle = (\<lambda>error.
            case error of
              KeyError \<Rightarrow> \<lparr>cancel = False, compensate = [], reraise = HTTPException 404\<rparr>
            | _ \<Rightarrow> uncaught error),
          respond = (\<lambda>rs. Inr Null)\<rparr>)"

definition delete_image ::
  "actor list \<Rightarrow> (call \<Rightarrow> bool) \<Rightarrow> string \<Rightarrow> string \<Rightarrow> backends \<Rightarrow> loop" where
  "delete_image sched faults bkt nm bk =
     (let object_id = \<lparr>bucket = bkt, name = nm\<rparr>
      in run (delete_program object_id) faults sched bk)"

text \<open>
  \<open>get_image\<close>. \<open>gather\<close> returns the stream and the metadata in the order of the two
  tasks; the last case of \<open>respond\<close> is for result lists of another form, which \<open>gather\<close>
  never returns here.
\<close>

definition get_program :: "ObjectRef \<Rightarrow> program" where
  "get_program object_id =
     (let object_task = Get_object object_id;
          metadata_task = Metadata_get object_id
      in \<lparr>tasks = [object_task, metadata_task],
          handle = (\<lambda>error.
            case error of
              KeyError \<Rightarrow> \<lparr>cancel = True, compensate = [], reraise = HTTPException 404\<rparr>
            | _ \<Rightarrow> uncaught error),
          respond = (\<lambda>rs.
            case rs of
              [Stream image_stream, Metadata metadata] \<Rightarrow>
                (let mime_type = IMAGE_FORMAT_TO_MIME_TYPES (m_format metadata)
                 in Inr (StreamingResponse image_stream mime_type))
            | _ \<Rightarrow> Inl (HTTPException 500))\<rparr>)"

definition get_image ::
  "actor list \<Rightarrow> (call \<Rightarrow> bool) \<Rightarrow> string \<Rightarrow> string \<Rightarrow> backends \<Rightarrow> loop" where
  "get_image sched faults bkt nm bk =
     (let object_id = \<lparr>bucket = bkt, name = nm\<rparr>
      in run (get_program object_id) faults sched bk)"

definition get_thumbnail :: "string \<Rightarrow> string \<Rightarrow> backends \<Rightarrow> error + response" where
  "get_thumbnail bkt nm bk =
     (let object_id = \<lparr>bucket = bkt, name = nm\<rparr>;
          thumbnail_object_id = thumbnail_id object_id
      in case object_store bk thumbnail_object_id of
           None \<Rightarrow> Inl (HTTPException 404)
         | Some image_stream \<Rightarrow> Inr (StreamingResponse image_stream ''image/jpeg''))"

section \<open>The specification's predicates on queries\<close>

text \<open>\<open>ImageQuery()\<close>, the query with no filter: the default of the query endpoint.\<close>

definition no_filter :: ImageQuery where
  "no_filter =
     \<lparr>q_platform_type = None, q_name = None, q_notes = None, q_camera = None,
      q_session_numbers = None, q_sequence_numbers = None, q_capture_dates = None,
      q_bounding_box = None, q_location_description = None, q_altitude_meters = None,
      q_gsd_cm_px = None\<rparr>"

text \<open>
  The four kinds of predicate, as the specification words them: by the shape of a filter
  value, the criteria it stands for on a column, and their meaning on the typed fields.
\<close>

fun clauses_for :: "filter_value \<Rightarrow> column \<Rightarrow> clause list" where
  "clauses_for NoneValue col = []"
| "clauses_for (EnumValue v) col = [Equals col v]"
| "clauses_for (StrValue v) col = [Like col (''%'' @ v @ ''%'')]"
| "clauses_for (RangeValue lo hi) col = [GreaterEq col lo, LessEq col hi]"
| "clauses_for OtherValue col = []"

definition box_clauses :: "BoundingBox option \<Rightarrow> clause list" where
  "box_clauses v =
     (case v of
        None \<Rightarrow> []
      | Some box \<Rightarrow>
          [LessEq Col_location_lat (Float (latitude_deg (north_east box))),
           GreaterEq Col_location_lat (Float (latitude_deg (south_west box))),
           LessEq Col_location_lon (Float (longitude_deg (north_east box))),
           GreaterEq Col_location_lon (Float (longitude_deg (south_west box)))])"

definition exact_pred :: "'a option \<Rightarrow> 'a \<Rightarrow> bool" where
  "exact_pred v x = (case v of None \<Rightarrow> True | Some e \<Rightarrow> x = e)"

definition text_pred :: "string option \<Rightarrow> string \<Rightarrow> bool" where
  "text_pred v s = (case v of None \<Rightarrow> True | Some t \<Rightarrow> like_match (''%'' @ t @ ''%'') s)"

definition range_pred :: "('a::linorder) Range option \<Rightarrow> 'a \<Rightarrow> bool" where
  "range_pred v x = (case v of None \<Rightarrow> True | Some r \<Rightarrow> min_value r \<le> x \<and> x \<le> max_value r)"

definition box_pred :: "BoundingBox option \<Rightarrow> Image \<Rightarrow> bool" where
  "box_pred v r =
     (case v of
        None \<Rightarrow> True
      | Some box \<Rightarrow>
          latitude_deg (south_west box) \<le> i_location_lat r \<and>
          i_location_lat r \<le> latitude_deg (north_east box) \<and>
          longitude_deg (south_west box) \<le> i_location_lon r \<and>
          i_location_lon r \<le> longitude_deg (north_east box))"

text \<open>A row's point lies inside a bounding box, bounds included, on both axes.\<close>

definition inside :: "BoundingBox \<Rightarrow> Image \<Rightarrow> bool" where
  "inside box r \<longleftrightarrow>
     latitude_deg (south_west box) \<le> i_location_lat r \<and>
     i_location_lat r \<le> latitude_deg (north_east box) \<and>
     longitude_deg (south_west box) \<le> i_location_lon r \<and>
     i_location_lon r \<le> longitude_deg (north_east box)"

definition fields_pred :: "ImageQuery \<Rightarrow> Image \<Rightarrow> bool" where
  "fields_pred q r \<longleftrightarrow>
     exact_pred (q_platform_type q) (i_platform_type r) \<and>
     text_pred (q_name q) (i_name r) \<and>
     text_pred (q_notes q) (i_notes r) \<and>
     text_pred (q_camera q) (i_camera r) \<and>
     range_pred (q_session_numbers q) (i_session_number r) \<and>
     range_pred (q_sequence_numbers q) (i_sequence_number r) \<and>
     range_pred (q_capture_dates q) (i_capture_date r) \<and>
     text_pred (q_location_description q) (i_location_description r) \<and>
     range_pred (q_altitude_meters q) (i_altitude_meters r) \<and>
     range_pred (q_gsd_cm_px q) (i_gsd_cm_px r)"

definition field_clauses :: "ImageQuery \<Rightarrow> clause list" where
  "field_clauses q = concat (map (\<lambda>(v, col). clauses_for v col) (field_updates q))"

text \<open>The rows that match a query, filtered and ordered, before any window is applied.\<close>

definition matching_ids :: "ImageQuery \<Rightarrow> Ordering list \<Rightarrow> Image list \<Rightarrow> ObjectRef list" where
  "matching_ids q orderings tbl =
     (case selection_of q orderings 0 0 of
        Inl e \<Rightarrow> []
      | Inr sel \<Rightarrow> map (\<lambda>result. \<lparr>bucket = i_bucket result, name = i_key result\<rparr>) (ordered_matches sel tbl))"

text \<open>Concrete rows and metadata, for the instances the theorems are applied to.\<close>

definition example_row :: "string \<Rightarrow> string \<Rightarrow> int \<Rightarrow> real \<Rightarrow> real \<Rightarrow> Image" where
  "example_row k nm session lat lon =
     \<lparr>i_bucket = ''images'', i_key = k, i_platform_type = AERIAL, i_name = nm,
      i_notes = '''', i_camera = ''rgb'', i_session_number = session,
      i_sequence_number = 0, i_capture_date = 0, i_location_description = '''',
      i_location_lat = lat, i_location_lon = lon, i_altitude_meters = 30,
      i_gsd_cm_px = 1, i_format = JPEG\<rparr>"

definition example_metadata :: UavImageMetadata where
  "example_metadata =
     \<lparr>m_platform_type = AERIAL, m_name = ''field'', m_notes = '''', m_camera = ''rgb'',
      m_session_number = 1, m_sequence_number = 2, m_capture_date = 0,
      m_location_description = '''',
      m_location = \<lparr>latitude_deg = 33, longitude_deg = -83\<rparr>,
      m_altitude_meters = 30, m_gsd_cm_px = 1, m_format = JPEG\<rparr>"

definition example_box :: BoundingBox where
  "example_box =
     \<lparr>south_west = \<lparr>latitude_deg = 30, longitude_deg = -90\<rparr>,
      north_east = \<lparr>latitude_deg = 35, longitude_deg = -80\<rparr>\<rparr>"

section \<open>The specification's predicates on the endpoints, and invariants\<close>

text \<open>
  The table has one row per (bucket, name): the invariant of the persisted layout, under
  which \<open>one()\<close> never meets several rows.
\<close>

definition one_row_per_key :: "Image list \<Rightarrow> bool" where
  "one_row_per_key tbl \<longleftrightarrow> distinct (map (\<lambda>r. (i_bucket r, i_key r)) tbl)"

text \<open>
  What \<open>delete_image\<close> and \<open>get_image\<close> answer, read off the two stores as they are when
  the request arrives.
\<close>

definition delete_response :: "ObjectRef \<Rightarrow> backends \<Rightarrow> error + response" where
  "delete_response object_id bk =
     (if object_store bk object_id \<noteq> None \<and> list_ex (has_id object_id) (metadata_store bk)
      then Inr Null else Inl (HTTPException 404))"

definition get_response :: "ObjectRef \<Rightarrow> backends \<Rightarrow> error + response" where
  "get_response object_id bk =
     (case object_store bk object_id of
        None \<Rightarrow> Inl (HTTPException 404)
      | Some image_stream \<Rightarrow>
          (if list_ex (has_id object_id) (metadata_store bk) then
             Inr (StreamingResponse image_stream
                    (IMAGE_FORMAT_TO_MIME_TYPES
                       (i_format (hd (filter (has_id object_id) (metadata_store bk))))))
           else Inl (HTTPException 404)))"

text \<open>
  The calls each \<open>except\<close> clause of \<open>create_uav_image\<close> makes, and when the calls a
  clause has made have all returned.
\<close>

definition rollback_calls :: "ObjectRef \<Rightarrow> error \<Rightarrow> call list" where
  "rollback_calls object_id e =
     (if e = MetadataOperationError then
        [Delete_object object_id, Delete_object (thumbnail_id object_id)]
      else if e = ObjectOperationError then [Metadata_delete object_id]
      else [])"

definition succeeded :: "call \<times> (error + result) \<Rightarrow> bool" where
  "succeeded cr = (case snd cr of Inl e \<Rightarrow> False | Inr v \<Rightarrow> True)"

definition compensated :: "loop \<Rightarrow> bool" where
  "compensated st = list_all succeeded (log st)"

text \<open>
  Invariants of the event loop. For every program: a task that raised has set the
  exception of \<open>gather\<close>, which is the exception of one of the tasks, and nothing is
  cancelled while the coroutine still awaits. For each endpoint: where its run stands,
  in terms of the stores as the request met them.
\<close>

definition loop_ok :: "program \<Rightarrow> loop \<Rightarrow> bool" where
  "loop_ok prog st \<longleftrightarrow>
     length (statuses st) = length (tasks prog) \<and>
     (gather_exc st = None \<longrightarrow> (\<forall>e. Raised e \<notin> set (statuses st))) \<and>
     (pc st = Awaiting \<longrightarrow> Cancelled \<notin> set (statuses st))"

definition first_raised :: "loop \<Rightarrow> bool" where
  "first_raised st \<longleftrightarrow> (\<forall>e. gather_exc st = Some e \<longrightarrow> Raised e \<in> set (statuses st))"

definition delete_inv :: "ObjectRef \<Rightarrow> backends \<Rightarrow> loop \<Rightarrow> bool" where
  "delete_inv object_id bk st \<longleftrightarrow>
     (\<exists>s0 s1.
        statuses st = [s0, s1] \<and>
        (s0 = Pending \<and> object_store (stores st) = object_store bk \<or>
         s0 = (if object_store bk object_id = None then Raised KeyError else Returned Done) \<and>
         object_store (stores st) = (object_store bk)(object_id := None)) \<and>
        (s1 = Pending \<and> metadata_store (stores st) = metadata_store bk \<or>
         s1 = (if list_ex (has_id object_id) (metadata_store bk) then Returned Done
               else Raised KeyError) \<and>
         metadata_store (stores st) =
           filter (\<lambda>r. \<not> has_id object_id r) (metadata_store bk)) \<and>
        gather_exc st =
          (if s0 = Raised KeyError \<or> s1 = Raised KeyError then Some KeyError else None) \<and>
        (pc st = Awaiting \<or> pc st = Responded (delete_response object_id bk)))"

definition get_inv :: "ObjectRef \<Rightarrow> backends \<Rightarrow> loop \<Rightarrow> bool" where
  "get_inv object_id bk st \<longleftrightarrow>
     (\<exists>s0 s1.
        statuses st = [s0, s1] \<and> stores st = bk \<and>
        (s0 = Pending \<or> s0 = Cancelled \<or>
         s0 = (case object_store bk object_id of
                 None \<Rightarrow> Raised KeyError
               | Some image_stream \<Rightarrow> Returned (Stream image_stream))) \<and>
        (s1 = Pending \<or> s1 = Cancelled \<or>
         s1 = (if list_ex (has_id object_id) (metadata_store bk) then
                 Returned (Metadata (orm_image_to_pydantic
                   (hd (filter (has_id object_id) (metadata_store bk)))))
               else Raised KeyError)) \<and>
        gather_exc st =
          (if s0 = Raised KeyError \<or> s1 = Raised KeyError then Some KeyError else None) \<and>
        (pc st = Awaiting \<and> s0 \<noteq> Cancelled \<and> s1 \<noteq> Cancelled \<or>
         pc st = Responded (get_response object_id bk) \<and> s0 \<noteq> Pending \<and> s1 \<noteq> Pending))"

definition create_inv :: "ObjectRef \<Rightarrow> loop \<Rightarrow> bool" where
  "create_inv object_id st \<longleftrightarrow>
     (pc st = Awaiting \<longrightarrow> log st = []) \<and>
     (gather_exc st = None \<and> pc st \<noteq> Awaiting \<longrightarrow> Pending \<notin> set (statuses st)) \<and>
     (\<forall>cs e. pc st = Handling cs e \<longrightarrow>
        gather_exc st = Some e \<and> cs \<noteq> [] \<and> compensated st \<and>
        map fst (log st) @ cs = rollback_calls object_id e) \<and>
     (\<forall>r e. pc st = Responded r \<and> gather_exc st = Some e \<and> compensated st \<longrightarrow>
        r = Inl e \<and> map fst (log st) = rollback_calls object_id e)"

text \<open>Concrete stores and backend faults, for the instances the theorems are applied to.\<close>

definition empty_backends :: backends where
  "empty_backends = \<lparr>object_store = Map.empty, metadata_store = []\<rparr>"

definition no_faults :: "call \<Rightarrow> bool" where
  "no_faults c = False"

definition metadata_add_fails :: "call \<Rightarrow> bool" where
  "metadata_add_fails c = (case c of Metadata_add ref metadata \<Rightarrow> True | _ \<Rightarrow> False)"

definition object_write_fails :: "ObjectRef \<Rightarrow> call \<Rightarrow> bool" where
  "object_write_fails object_id c =
     (case c of Create_object ref data \<Rightarrow> ref = object_id | _ \<Rightarrow> False)"

definition object_only :: backends where
  "object_only =
     \<lparr>object_store = [\<lparr>bucket = ''images'', name = ''abc''\<rparr> \<mapsto> ''raw''],
      metadata_store = []\<rparr>"

definition example_stores :: backends where
  "example_stores =
     \<lparr>object_store = [\<lparr>bucket = ''images'', name = ''abc''\<rparr> \<mapsto> ''raw''],
      metadata_store =
        [pydantic_to_orm_image \<lparr>bucket = ''images'', name = ''abc''\<rparr> example_metadata]\<rparr>"

section \<open>Lemmas on the query translation and on SQL execution\<close>

text \<open>Sorting permutes the rows.\<close>

lemma set_insert_row: "set (insert_row keys a bs) = insert a (set bs)"
  by (induction bs) auto

lemma set_sort_rows: "set (sort_rows keys xs) = set xs"
  by (induction xs) (auto simp: set_insert_row)

text \<open>The translation as a list of clauses, and what the clauses mean on a row.\<close>

lemma update_query_clauses:
  "v \<noteq> OtherValue \<Longrightarrow>
   update_query v col s = Inr (s\<lparr>sel_where := sel_where s @ clauses_for v col\<rparr>)"
  by (cases v) simp_all

lemma apply_query_updates_clauses:
  "OtherValue \<notin> fst ` set us \<Longrightarrow>
   apply_query_updates us s =
     Inr (s\<lparr>sel_where := sel_where s @ concat (map (\<lambda>(v, col). clauses_for v col) us)\<rparr>)"
proof (induction us arbitrary: s)
  case Nil
  then show ?case by simp
next
  case (Cons u us)
  obtain v col where u: "u = (v, col)" by (cases u)
  from Cons.prems u have v: "v \<noteq> OtherValue" and rest: "OtherValue \<notin> fst ` set us"
    by auto
  show ?case
    using Cons.IH [OF rest] by (simp add: u update_query_clauses [OF v])
qed

lemma field_updates_typed: "OtherValue \<notin> fst ` set (field_updates q)"
  by (auto simp: field_updates_def enum_filter_def str_filter_def range_filter_def
      split: option.splits)

lemma update_location_query_clauses:
  "update_location_query v s Col_location_lat Col_location_lon =
     s\<lparr>sel_where := sel_where s @ box_clauses v\<rparr>"
  by (simp add: update_location_query_def box_clauses_def split: option.split)

lemma update_image_query_clauses:
  "update_image_query q s =
     Inr (s\<lparr>sel_where := sel_where s @ field_clauses q @ box_clauses (q_bounding_box q)\<rparr>)"
  by (simp add: update_image_query_def apply_query_updates_clauses [OF field_updates_typed]
      update_location_query_clauses field_clauses_def)

lemma eval_enum: "list_all (\<lambda>c. eval_clause c r) (clauses_for (enum_filter v) Col_platform_type)
    = exact_pred v (i_platform_type r)"
  by (cases v) (auto simp: enum_filter_def exact_pred_def)

lemma eval_str:
  "column_value col r = Text s \<Longrightarrow>
   list_all (\<lambda>c. eval_clause c r) (clauses_for (str_filter v) col) = text_pred v s"
  by (cases v) (auto simp: str_filter_def text_pred_def)

lemma eval_range_int:
  "column_value col r = Integer x \<Longrightarrow>
   list_all (\<lambda>c. eval_clause c r) (clauses_for (range_filter Integer v) col) = range_pred v x"
  by (cases v) (auto simp: range_filter_def range_pred_def)

lemma eval_range_date:
  "column_value col r = Date x \<Longrightarrow>
   list_all (\<lambda>c. eval_clause c r) (clauses_for (range_filter Date v) col) = range_pred v x"
  by (cases v) (auto simp: range_filter_def range_pred_def)

lemma eval_range_float:
  "column_value col r = Float x \<Longrightarrow>
   list_all (\<lambda>c. eval_clause c r) (clauses_for (range_filter Float v) col) = range_pred v x"
  by (cases v) (auto simp: range_filter_def range_pred_def)

lemma eval_field_clauses:
  "list_all (\<lambda>c. eval_clause c r) (field_clauses q) = fields_pred q r"
  by (simp add: field_clauses_def field_updates_def fields_pred_def eval_enum eval_str
      eval_range_int eval_range_date eval_range_float del: clauses_for.simps)

lemma eval_box_clauses:
  "list_all (\<lambda>c. eval_clause c r) (box_clauses v) = box_pred v r"
  by (cases v) (auto simp: box_clauses_def box_pred_def)

lemma row_matches_update_image_query:
  "update_image_query q s = Inr s' \<Longrightarrow>
   row_matches s' r \<longleftrightarrow> row_matches s r \<and> fields_pred q r \<and> box_pred (q_bounding_box q) r"
  by (auto simp: update_image_query_clauses row_matches_def eval_field_clauses eval_box_clauses)

text \<open>
  \<open>LIKE\<close> with a wildcard on both sides: a value that occurs in the text is always
  matched, and a value without wildcard characters is matched only where it occurs.
\<close>

lemma like_percent:
  "like_match (CHR ''%'' # ps) s \<longleftrightarrow> (\<exists>pre u. s = pre @ u \<and> like_match ps u)"
proof (induction s)
  case Nil
  then show ?case by simp
next
  case (Cons c cs)
  show ?case
  proof
    assume "like_match (CHR ''%'' # ps) (c # cs)"
    then have "like_match ps (c # cs) \<or> like_match (CHR ''%'' # ps) cs" by simp
    then consider "like_match ps (c # cs)" | "like_match (CHR ''%'' # ps) cs" by blast
    then show "\<exists>pre u. c # cs = pre @ u \<and> like_match ps u"
    proof cases
      case 1
      then show ?thesis by (intro exI [of _ "[]"] exI [of _ "c # cs"]) simp
    next
      case 2
      with Cons.IH obtain pre u where "cs = pre @ u" "like_match ps u" by blast
      then show ?thesis by (intro exI [of _ "c # pre"] exI [of _ u]) simp
    qed
  next
    assume "\<exists>pre u. c # cs = pre @ u \<and> like_match ps u"
    then obtain pre u where eq: "c # cs = pre @ u" and m: "like_match ps u" by blast
    show "like_match (CHR ''%'' # ps) (c # cs)"
    proof (cases pre)
      case Nil
      with eq have "u = c # cs" by simp
      with m show ?thesis by simp
    next
      case (Cons d pre')
      with eq have "cs = pre' @ u" by simp
      with m Cons.IH have "like_match (CHR ''%'' # ps) cs" by blast
      then show ?thesis by simp
    qed
  qed
qed

lemma like_percent_only: "like_match ''%'' s"
  by (induction s) simp_all

lemma like_literal_prefix:
  "like_match ps u \<Longrightarrow> like_match (t @ ps) (t @ u)"
proof (induction t)
  case Nil
  then show ?case by simp
next
  case (Cons c t)
  then have m: "like_match (t @ ps) (t @ u)" by simp
  then have "like_match (CHR ''%'' # t @ ps) (t @ u)"
    unfolding like_percent by (intro exI [of _ "[]"] exI [of _ "t @ u"]) simp
  with m show ?case by simp
qed

lemma like_wildcard_free:
  "CHR ''%'' \<notin> set t \<Longrightarrow> CHR ''_'' \<notin> set t \<Longrightarrow>
   like_match (t @ ps) s \<longleftrightarrow> (\<exists>u. s = t @ u \<and> like_match ps u)"
proof (induction t arbitrary: s)
  case Nil
  then show ?case by simp
next
  case (Cons c t)
  then show ?case by (cases s) auto
qed

lemma substring_is_matched:
  "sublist t s \<Longrightarrow> like_match (''%'' @ t @ ''%'') s"
proof -
  assume "sublist t s"
  then obtain pre suf where "s = pre @ t @ suf" by (auto simp: sublist_def)
  moreover have "like_match (t @ ''%'') (t @ suf)"
    by (rule like_literal_prefix) (rule like_percent_only)
  ultimately show ?thesis by (auto simp: like_percent)
qed

lemma wildcard_free_match_is_substring:
  assumes "CHR ''%'' \<notin> set t" and "CHR ''_'' \<notin> set t"
  shows "like_match (''%'' @ t @ ''%'') s \<longleftrightarrow> sublist t s"
proof
  assume "like_match (''%'' @ t @ ''%'') s"
  then obtain pre u where "s = pre @ u" "like_match (t @ ''%'') u"
    by (auto simp: like_percent)
  with assms show "sublist t s"
    by (auto simp: like_wildcard_free sublist_def)
qed (rule substring_is_matched)

text \<open>The statement \<open>query\<close> executes, and its result as a window of the matches.\<close>

lemma sel_where_orderings:
  "sel_where (foldl (\<lambda>s order. update_query_order order s) s orderings) = sel_where s"
  by (induction orderings arbitrary: s) (simp_all add: update_query_order_def)

lemma selection_of_Inr:
  "\<exists>sel. selection_of q orderings skip n = Inr sel \<and>
     sel_where sel = field_clauses q @ box_clauses (q_bounding_box q) \<and>
     sel_offset sel = skip \<and> sel_limit sel = Some n"
  by (simp add: selection_of_def update_image_query_clauses sel_where_orderings select_Image_def)

lemma row_matches_selection:
  "selection_of q orderings skip n = Inr sel \<Longrightarrow>
   row_matches sel r \<longleftrightarrow> fields_pred q r \<and> box_pred (q_bounding_box q) r"
  using selection_of_Inr [of q orderings skip n]
  by (auto simp: row_matches_def eval_field_clauses eval_box_clauses)

lemma length_insert_row: "length (insert_row keys a bs) = Suc (length bs)"
  by (induction bs) auto

lemma length_sort_rows: "length (sort_rows keys xs) = length xs"
  by (induction xs) (auto simp: length_insert_row)

lemma length_ordered_matches: "length (ordered_matches sel tbl) \<le> length tbl"
  by (simp add: ordered_matches_def length_sort_rows)

lemma set_ordered_matches: "set (ordered_matches sel tbl) = {r \<in> set tbl. row_matches sel r}"
  by (auto simp: ordered_matches_def set_sort_rows)

lemma row_matches_window:
  "row_matches (s\<lparr>sel_offset := a, sel_limit := b\<rparr>) = row_matches s"
  by (rule ext) (simp add: row_matches_def)

lemma ordered_matches_window:
  "selection_of q orderings skip n = Inr sel \<Longrightarrow>
   selection_of q orderings skip' n' = Inr sel' \<Longrightarrow>
   ordered_matches sel tbl = ordered_matches sel' tbl"
  by (auto simp: selection_of_def update_image_query_clauses ordered_matches_def
      row_matches_window)

lemma query_window:
  "query q orderings skip n tbl = Inr (take n (drop skip (matching_ids q orderings tbl)))"
proof -
  obtain sel where sel: "selection_of q orderings skip n = Inr sel"
    and w: "sel_offset sel = skip" "sel_limit sel = Some n"
    using selection_of_Inr [of q orderings skip n] by blast
  obtain sel0 where sel0: "selection_of q orderings 0 0 = Inr sel0"
    using selection_of_Inr [of q orderings 0 0] by blast
  have "ordered_matches sel tbl = ordered_matches sel0 tbl"
    by (rule ordered_matches_window [OF sel sel0])
  then show ?thesis
    by (simp add: query_def sel sel0 matching_ids_def execute_def w take_map drop_map)
qed

text \<open>
  The matches of a query with a bounding box, and of a query with a name filter only.
\<close>

lemma box_pred_inside: "box_pred (Some box) r = inside box r"
  by (simp add: box_pred_def inside_def)

lemma matching_ids_set:
  assumes "q_bounding_box q = Some box"
  shows "set (matching_ids q orderings tbl) =
     (\<lambda>r. \<lparr>bucket = i_bucket r, name = i_key r\<rparr>) `
       {r \<in> set tbl. inside box r \<and> fields_pred q r}"
proof -
  obtain sel where sel: "selection_of q orderings 0 0 = Inr sel"
    using selection_of_Inr [of q orderings 0 0] by blast
  have "row_matches sel r \<longleftrightarrow> inside box r \<and> fields_pred q r" for r
    using row_matches_selection [OF sel] assms by (auto simp: box_pred_inside)
  then show ?thesis
    by (auto simp: matching_ids_def sel set_ordered_matches)
qed

lemma matching_ids_length:
  assumes "q_bounding_box q = Some box"
  shows "length (matching_ids q orderings tbl) =
     length (filter (\<lambda>r. inside box r \<and> fields_pred q r) tbl)"
proof -
  obtain sel where sel: "selection_of q orderings 0 0 = Inr sel"
    using selection_of_Inr [of q orderings 0 0] by blast
  have "row_matches sel r \<longleftrightarrow> inside box r \<and> fields_pred q r" for r
    using row_matches_selection [OF sel] assms by (auto simp: box_pred_inside)
  then have "filter (row_matches sel) tbl = filter (\<lambda>r. inside box r \<and> fields_pred q r) tbl"
    by (intro filter_cong) auto
  then show ?thesis
    by (simp add: matching_ids_def sel ordered_matches_def length_sort_rows)
qed

lemma example_fields: "fields_pred (no_filter\<lparr>q_bounding_box := b\<rparr>) r"
  by (simp add: fields_pred_def no_filter_def exact_pred_def text_pred_def range_pred_def)

lemma example_box_run:
  "matching_ids (no_filter\<lparr>q_bounding_box := Some example_box\<rparr>) []
     [example_row ''a'' ''field'' 1 35 (-90), example_row ''b'' ''field'' 1 36 (-85),
      example_row ''c'' ''field'' 1 31 (-85), example_row ''d'' ''field'' 1 32 (-81)] =
   [\<lparr>bucket = ''images'', name = ''a''\<rparr>, \<lparr>bucket = ''images'', name = ''c''\<rparr>,
    \<lparr>bucket = ''images'', name = ''d''\<rparr>]"
proof -
  let ?q = "no_filter\<lparr>q_bounding_box := Some example_box\<rparr>"
  obtain sel where sel: "selection_of ?q [] 0 0 = Inr sel" and o: "sel_order_by sel = []"
    by (simp add: selection_of_def update_image_query_clauses select_Image_def)
  have f: "fields_pred ?q r" for r
    by (simp add: fields_pred_def no_filter_def exact_pred_def text_pred_def range_pred_def)
  have m: "row_matches sel r \<longleftrightarrow> inside example_box r" for r
    using row_matches_selection [OF sel] f by (simp add: box_pred_inside)
  show ?thesis
    by (simp add: matching_ids_def sel ordered_matches_def o m)
      (simp add: inside_def example_box_def example_row_def)
qed

lemma insert_row_no_keys: "insert_row [] a bs = a # bs"
  by (cases bs) simp_all

lemma sort_rows_no_keys: "sort_rows [] xs = xs"
  by (induction xs) (simp_all add: insert_row_no_keys)

lemma name_filter_clauses:
  "field_clauses (no_filter\<lparr>q_name := Some v\<rparr>) @
     box_clauses (q_bounding_box (no_filter\<lparr>q_name := Some v\<rparr>)) =
   [Like Col_name (''%'' @ v @ ''%'')]"
  by (simp add: field_clauses_def field_updates_def no_filter_def enum_filter_def
      str_filter_def range_filter_def box_clauses_def)

lemma no_filter_clauses:
  "field_clauses no_filter @ box_clauses (q_bounding_box no_filter) = []"
  by (simp add: field_clauses_def field_updates_def no_filter_def enum_filter_def
      str_filter_def range_filter_def box_clauses_def)

lemma name_filter_selection:
  "\<exists>sel. selection_of (no_filter\<lparr>q_name := Some v\<rparr>) orderings skip n = Inr sel \<and>
     sel_where sel = [Like Col_name (''%'' @ v @ ''%'')] \<and>
     (\<forall>r. row_matches sel r \<longleftrightarrow> like_match (''%'' @ v @ ''%'') (i_name r))"
proof -
  obtain sel where sel: "selection_of (no_filter\<lparr>q_name := Some v\<rparr>) orderings skip n = Inr sel"
    and w: "sel_where sel = field_clauses (no_filter\<lparr>q_name := Some v\<rparr>) @
      box_clauses (q_bounding_box (no_filter\<lparr>q_name := Some v\<rparr>))"
    using selection_of_Inr [of "no_filter\<lparr>q_name := Some v\<rparr>" orderings skip n] by blast
  from w have w': "sel_where sel = [Like Col_name (''%'' @ v @ ''%'')]"
    unfolding name_filter_clauses .
  then have "row_matches sel r \<longleftrightarrow> like_match (''%'' @ v @ ''%'') (i_name r)" for r
    by (simp add: row_matches_def)
  with sel w' show ?thesis by blast
qed

lemma name_filter_matches:
  "matching_ids (no_filter\<lparr>q_name := Some v\<rparr>) [] tbl =
     map (\<lambda>result. \<lparr>bucket = i_bucket result, name = i_key result\<rparr>)
       (filter (\<lambda>r. like_match (''%'' @ v @ ''%'') (i_name r)) tbl)"
proof -
  obtain sel where sel: "selection_of (no_filter\<lparr>q_name := Some v\<rparr>) [] 0 0 = Inr sel"
    and m: "\<forall>r. row_matches sel r \<longleftrightarrow> like_match (''%'' @ v @ ''%'') (i_name r)"
    using name_filter_selection [of v "[]" 0 0] by blast
  have o: "sel_order_by sel = []"
    using sel by (auto simp: selection_of_def update_image_query_clauses select_Image_def)
  from m have "filter (row_matches sel) tbl =
      filter (\<lambda>r. like_match (''%'' @ v @ ''%'') (i_name r)) tbl"
    by (intro filter_cong) auto
  then show ?thesis
    by (simp add: matching_ids_def sel ordered_matches_def o sort_rows_no_keys)
qed

lemma no_filter_matches:
  "matching_ids no_filter [] tbl =
     map (\<lambda>result. \<lparr>bucket = i_bucket result, name = i_key result\<rparr>) tbl"
proof -
  obtain sel where sel: "selection_of no_filter [] 0 0 = Inr sel"
    and w: "sel_where sel = field_clauses no_filter @ box_clauses (q_bounding_box no_filter)"
    using selection_of_Inr [of no_filter "[]" 0 0] by blast
  have o: "sel_order_by sel = []"
    using sel by (auto simp: selection_of_def update_image_query_clauses select_Image_def)
  from w have "row_matches sel r" for r
    unfolding no_filter_clauses by (simp add: row_matches_def)
  then have "filter (row_matches sel) tbl = tbl" by simp
  then show ?thesis
    by (simp add: matching_ids_def sel ordered_matches_def o sort_rows_no_keys)
qed

section \<open>Properties of the metadata store and of the query endpoint\<close>


text \<open>
  Claim C3. The translation of an \<open>ImageQuery\<close> never fails, and it appends to the
  statement, field by field and in the order of the fields, what the shape of the
  field's value asks for: nothing for \<open>None\<close>, one equality for an enumerated value, one
  \<open>LIKE\<close> with a wildcard on both sides for a text, the two inclusive bounds for a
  \<open>Range\<close> (\<open>field_clauses\<close>), then the criteria of the bounding box. A row satisfies
  the statement exactly when it satisfies what was there before and every one of these
  predicates: they are conjoined, and no disjunction or negation is built. What the
  \<open>LIKE\<close> of a text value matches is the subject of \<open>substring_is_matched\<close> and
  \<open>wildcard_free_match_is_substring\<close>.
\<close>

theorem query_translation:
  "\<exists>sel'. update_image_query q sel = Inr sel' \<and>
     sel_where sel' = sel_where sel @ field_clauses q @ box_clauses (q_bounding_box q) \<and>
     (\<forall>r. row_matches sel' r \<longleftrightarrow>
        row_matches sel r \<and> fields_pred q r \<and> box_pred (q_bounding_box q) r)"
  by (simp add: update_image_query_clauses row_matches_def eval_field_clauses eval_box_clauses)

theorem query_translation_witness:
  "\<exists>sel'. update_image_query
       (no_filter\<lparr>q_platform_type := Some AERIAL, q_name := Some ''fie'',
          q_session_numbers := Some (Range 1 2)\<rparr>) select_Image = Inr sel' \<and>
     sel_where sel' =
       [Equals Col_platform_type (Enum AERIAL), Like Col_name ''%fie%'',
        GreaterEq Col_session_number (Integer 1), LessEq Col_session_number (Integer 2)] \<and>
     row_matches sel' (example_row ''a'' ''field'' 1 0 0) \<and>
     \<not> row_matches sel' (example_row ''b'' ''field'' 3 0 0)"
  using query_translation [of "no_filter\<lparr>q_platform_type := Some AERIAL, q_name := Some ''fie'',
          q_session_numbers := Some (Range 1 2)\<rparr>" select_Image]
  by (auto simp: no_filter_def select_Image_def field_clauses_def field_updates_def
      enum_filter_def str_filter_def range_filter_def box_clauses_def example_row_def
      row_matches_def)

text \<open>
  Claim C4, as amended. With a bounding box in the query, every \<open>ObjectRef\<close> that
  \<open>query\<close> returns is the one of a row of the table that lies inside the box on both
  axes, bounds included, and satisfies the field predicates, whatever the window. When
  the window holds every matching row (nothing is skipped and the rows inside the box
  that satisfy the field predicates are no more than the limit), an \<open>ObjectRef\<close> is
  returned if and only if it is the one of such a row.
\<close>

theorem bounding_box_filter:
  assumes "q_bounding_box q = Some box"
  shows "\<exists>ids. query q orderings skip n tbl = Inr ids \<and>
     (\<forall>ref \<in> set ids. \<exists>r \<in> set tbl.
        ref = \<lparr>bucket = i_bucket r, name = i_key r\<rparr> \<and> inside box r \<and> fields_pred q r) \<and>
     (skip = 0 \<and> length (filter (\<lambda>r. inside box r \<and> fields_pred q r) tbl) \<le> n \<longrightarrow>
        (\<forall>ref. ref \<in> set ids \<longleftrightarrow>
           (\<exists>r \<in> set tbl.
              ref = \<lparr>bucket = i_bucket r, name = i_key r\<rparr> \<and> inside box r \<and> fields_pred q r)))"
proof -
  let ?all = "matching_ids q orderings tbl"
  let ?ids = "take n (drop skip ?all)"
  have q: "query q orderings skip n tbl = Inr ?ids" by (rule query_window)
  have s: "set ?all = (\<lambda>r. \<lparr>bucket = i_bucket r, name = i_key r\<rparr>) `
       {r \<in> set tbl. inside box r \<and> fields_pred q r}"
    by (rule matching_ids_set [OF assms])
  have sub: "set ?ids \<subseteq> set ?all"
    by (auto dest: in_set_takeD in_set_dropD)
  have part1: "\<forall>ref \<in> set ?ids. \<exists>r \<in> set tbl.
        ref = \<lparr>bucket = i_bucket r, name = i_key r\<rparr> \<and> inside box r \<and> fields_pred q r"
    using sub s by auto
  have part2: "\<forall>ref. ref \<in> set ?ids \<longleftrightarrow>
           (\<exists>r \<in> set tbl.
              ref = \<lparr>bucket = i_bucket r, name = i_key r\<rparr> \<and> inside box r \<and> fields_pred q r)"
    if "skip = 0" "length (filter (\<lambda>r. inside box r \<and> fields_pred q r) tbl) \<le> n"
  proof -
    from that have "?ids = ?all" by (simp add: matching_ids_length [OF assms])
    with s show ?thesis by auto
  qed
  from q part1 part2 show ?thesis by blast
qed

theorem bounding_box_filter_witness:
  "query (no_filter\<lparr>q_bounding_box := Some example_box\<rparr>) [] 0 3
     [example_row ''a'' ''field'' 1 35 (-90), example_row ''b'' ''field'' 1 36 (-85),
      example_row ''c'' ''field'' 1 31 (-85), example_row ''d'' ''field'' 1 32 (-81)] =
   Inr [\<lparr>bucket = ''images'', name = ''a''\<rparr>, \<lparr>bucket = ''images'', name = ''c''\<rparr>,
        \<lparr>bucket = ''images'', name = ''d''\<rparr>] \<and>
   inside example_box (example_row ''a'' ''field'' 1 35 (-90)) \<and>
   \<not> inside example_box (example_row ''b'' ''field'' 1 36 (-85))"
proof -
  have b: "q_bounding_box (no_filter\<lparr>q_bounding_box := Some example_box\<rparr>) = Some example_box"
    by simp
  have w: "query (no_filter\<lparr>q_bounding_box := Some example_box\<rparr>) [] 0 3
     [example_row ''a'' ''field'' 1 35 (-90), example_row ''b'' ''field'' 1 36 (-85),
      example_row ''c'' ''field'' 1 31 (-85), example_row ''d'' ''field'' 1 32 (-81)] =
   Inr [\<lparr>bucket = ''images'', name = ''a''\<rparr>, \<lparr>bucket = ''images'', name = ''c''\<rparr>,
        \<lparr>bucket = ''images'', name = ''d''\<rparr>]"
    unfolding query_window example_box_run by simp
  have i: "inside example_box (example_row ''a'' ''field'' 1 35 (-90))"
    "\<not> inside example_box (example_row ''b'' ''field'' 1 36 (-85))"
    by (simp_all add: inside_def example_box_def example_row_def)
  from bounding_box_filter [OF b, of "[]" 0 3
      "[example_row ''a'' ''field'' 1 35 (-90), example_row ''b'' ''field'' 1 36 (-85),
        example_row ''c'' ''field'' 1 31 (-85), example_row ''d'' ''field'' 1 32 (-81)]"] w i
  show ?thesis by simp
qed

text \<open>
  Claim C4 as stated fails. Three rows of the table lie inside the box and the limit is
  two: the third, \<open>d\<close>, satisfies every inequality and is not returned.
\<close>

theorem bounding_box_filter_window:
  "q_bounding_box (no_filter\<lparr>q_bounding_box := Some example_box\<rparr>) = Some example_box \<and>
   example_row ''d'' ''field'' 1 32 (-81) \<in> set
     [example_row ''a'' ''field'' 1 35 (-90), example_row ''b'' ''field'' 1 36 (-85),
      example_row ''c'' ''field'' 1 31 (-85), example_row ''d'' ''field'' 1 32 (-81)] \<and>
   inside example_box (example_row ''d'' ''field'' 1 32 (-81)) \<and>
   fields_pred (no_filter\<lparr>q_bounding_box := Some example_box\<rparr>)
     (example_row ''d'' ''field'' 1 32 (-81)) \<and>
   query (no_filter\<lparr>q_bounding_box := Some example_box\<rparr>) [] 0 2
     [example_row ''a'' ''field'' 1 35 (-90), example_row ''b'' ''field'' 1 36 (-85),
      example_row ''c'' ''field'' 1 31 (-85), example_row ''d'' ''field'' 1 32 (-81)] =
   Inr [\<lparr>bucket = ''images'', name = ''a''\<rparr>, \<lparr>bucket = ''images'', name = ''c''\<rparr>] \<and>
   \<lparr>bucket = i_bucket (example_row ''d'' ''field'' 1 32 (-81)),
    name = i_key (example_row ''d'' ''field'' 1 32 (-81))\<rparr> \<notin> set
     [\<lparr>bucket = ''images'', name = ''a''\<rparr>, \<lparr>bucket = ''images'', name = ''c''\<rparr>]"
proof -
  have w: "query (no_filter\<lparr>q_bounding_box := Some example_box\<rparr>) [] 0 2
     [example_row ''a'' ''field'' 1 35 (-90), example_row ''b'' ''field'' 1 36 (-85),
      example_row ''c'' ''field'' 1 31 (-85), example_row ''d'' ''field'' 1 32 (-81)] =
   Inr [\<lparr>bucket = ''images'', name = ''a''\<rparr>, \<lparr>bucket = ''images'', name = ''c''\<rparr>]"
    unfolding query_window example_box_run by simp
  have i: "inside example_box (example_row ''d'' ''field'' 1 32 (-81))"
    by (simp add: inside_def example_box_def example_row_def)
  have k: "\<lparr>bucket = i_bucket (example_row ''d'' ''field'' 1 32 (-81)),
    name = i_key (example_row ''d'' ''field'' 1 32 (-81))\<rparr> \<notin> set
     [\<lparr>bucket = ''images'', name = ''a''\<rparr>, \<lparr>bucket = ''images'', name = ''c''\<rparr>]"
    by (simp add: example_row_def)
  from w i k example_fields show ?thesis by simp
qed

text \<open>
  Claim C5. For a positive page size and page number the endpoint returns the matching
  rows, filtered and ordered, from position \<open>(p - 1) * limit\<close> on, at most \<open>limit\<close> of
  them, and marks the page as the last one exactly when it holds fewer than \<open>limit\<close>
  rows. When the number of matching rows is \<open>(p - 1) * limit\<close>, page \<open>p\<close> is empty and is
  the one marked last, and every page that ends within the matching rows is full and not
  marked: with a total that is a multiple of the page size, the last page is empty.
\<close>

theorem pagination:
  assumes "0 < limit" and "0 < p"
  shows "\<exists>resp. query_images q orderings limit p tbl = Inr resp \<and>
     image_ids resp =
       take (nat limit) (drop (nat ((p - 1) * limit)) (matching_ids q orderings tbl)) \<and>
     page_num resp = p \<and>
     int (length (image_ids resp)) \<le> limit \<and>
     (is_last_page resp \<longleftrightarrow> int (length (image_ids resp)) < limit) \<and>
     (int (length (matching_ids q orderings tbl)) = (p - 1) * limit \<longrightarrow>
        image_ids resp = [] \<and> is_last_page resp) \<and>
     (p * limit \<le> int (length (matching_ids q orderings tbl)) \<longrightarrow>
        int (length (image_ids resp)) = limit \<and> \<not> is_last_page resp)"
proof -
  let ?all = "matching_ids q orderings tbl"
  let ?ids = "take (nat limit) (drop (nat ((p - 1) * limit)) ?all)"
  let ?resp = "\<lparr>image_ids = ?ids, page_num = p, is_last_page = (int (length ?ids) < limit)\<rparr>"
  have r: "query_images q orderings limit p tbl = Inr ?resp"
    using assms by (simp add: query_images_def query_window Let_def)
  have le: "int (length ?ids) \<le> limit"
    using assms by simp
  have empty: "?ids = [] \<and> int (length ?ids) < limit"
    if "int (length ?all) = (p - 1) * limit"
  proof -
    from that have "length ?all = nat ((p - 1) * limit)" by simp
    then show ?thesis using assms by simp
  qed
  have full: "int (length ?ids) = limit" if "p * limit \<le> int (length ?all)"
  proof -
    have "(p - 1) * limit + limit = p * limit" by (simp add: algebra_simps)
    moreover have "0 \<le> (p - 1) * limit" using assms by simp
    ultimately have "nat ((p - 1) * limit) + nat limit \<le> length ?all"
      using that assms by linarith
    then have "length ?ids = nat limit" by simp
    then show ?thesis using assms by simp
  qed
  show ?thesis
    using r le empty full by (intro exI [of _ ?resp]) simp
qed

theorem pagination_witness:
  "\<exists>resp. query_images no_filter [] 1 3
       [example_row ''a'' ''x'' 1 0 0, example_row ''b'' ''y'' 2 0 0] = Inr resp \<and>
     image_ids resp = [] \<and> page_num resp = 3 \<and> is_last_page resp"
proof -
  have sel: "selection_of no_filter [] 0 0 =
      Inr \<lparr>sel_where = [], sel_order_by = [], sel_offset = 0, sel_limit = Some 0\<rparr>"
    by (simp add: selection_of_def update_image_query_clauses select_Image_def no_filter_def
        field_clauses_def field_updates_def enum_filter_def str_filter_def range_filter_def
        box_clauses_def)
  have "length (matching_ids no_filter []
       [example_row ''a'' ''x'' 1 0 0, example_row ''b'' ''y'' 2 0 0]) = 2"
    by (simp add: matching_ids_def sel ordered_matches_def row_matches_def)
  with pagination [of 1 3 no_filter "[]"
      "[example_row ''a'' ''x'' 1 0 0, example_row ''b'' ''y'' 2 0 0]"]
  show ?thesis by auto
qed

text \<open>
  Claim C9. After \<open>add\<close> has stored the metadata under an \<open>ObjectRef\<close>, \<open>get\<close> of that
  \<open>ObjectRef\<close> returns the same metadata; its location is put together from the
  latitude and longitude columns of the row.
\<close>

theorem add_then_get_roundtrip:
  "add object_id metadata tbl = Inr tbl' \<Longrightarrow>
   get object_id tbl' = Inr metadata \<and>
   (\<exists>img. get_by_id object_id tbl' = Inr img \<and>
      m_location metadata =
        \<lparr>latitude_deg = i_location_lat img, longitude_deg = i_location_lon img\<rparr>)"
proof -
  assume a: "add object_id metadata tbl = Inr tbl'"
  let ?img = "pydantic_to_orm_image object_id metadata"
  from a have fresh: "\<not> list_ex (has_id object_id) tbl" and tbl': "tbl' = tbl @ [?img]"
    by (auto simp: add_def Let_def split: if_splits)
  from fresh have "filter (has_id object_id) tbl = []"
    by (auto simp: list_ex_iff filter_empty_conv)
  moreover have "has_id object_id ?img"
    by (simp add: has_id_def pydantic_to_orm_image_def)
  ultimately have g: "get_by_id object_id tbl' = Inr ?img"
    by (simp add: get_by_id_def tbl')
  have "orm_image_to_pydantic ?img = metadata"
    by (simp add: orm_image_to_pydantic_def pydantic_to_orm_image_def)
  moreover have "m_location metadata =
      \<lparr>latitude_deg = i_location_lat ?img, longitude_deg = i_location_lon ?img\<rparr>"
    by (simp add: pydantic_to_orm_image_def)
  ultimately show ?thesis using g by (simp add: get_def)
qed

theorem add_then_get_roundtrip_witness:
  "add \<lparr>bucket = ''images'', name = ''c''\<rparr> example_metadata [example_row ''a'' ''x'' 1 0 0]
     = Inr ([example_row ''a'' ''x'' 1 0 0] @
            [pydantic_to_orm_image \<lparr>bucket = ''images'', name = ''c''\<rparr> example_metadata]) \<and>
   get \<lparr>bucket = ''images'', name = ''c''\<rparr>
     ([example_row ''a'' ''x'' 1 0 0] @
      [pydantic_to_orm_image \<lparr>bucket = ''images'', name = ''c''\<rparr> example_metadata])
     = Inr example_metadata"
proof -
  have a: "add \<lparr>bucket = ''images'', name = ''c''\<rparr> example_metadata [example_row ''a'' ''x'' 1 0 0]
     = Inr ([example_row ''a'' ''x'' 1 0 0] @
            [pydantic_to_orm_image \<lparr>bucket = ''images'', name = ''c''\<rparr> example_metadata])"
    by (simp add: add_def has_id_def example_row_def)
  from add_then_get_roundtrip [OF a] a show ?thesis by simp
qed

text \<open>
  Claim C10. A name filter \<open>v\<close> is translated into the single criterion
  \<open>name LIKE '%v%'\<close>, the value standing unescaped between the two wildcards, and a row
  satisfies the statement exactly when its name matches that pattern. This is not a
  literal substring test: with the value \<open>a_c\<close>, the query returns the row named
  \<open>abc\<close>, which does not contain the value, and leaves out the row named \<open>xyz\<close>, which
  the query without the filter returns.
\<close>

theorem like_filter_is_not_literal_substring:
  "(\<forall>v orderings skip n.
      \<exists>sel. selection_of (no_filter\<lparr>q_name := Some v\<rparr>) orderings skip n = Inr sel \<and>
        sel_where sel = [Like Col_name (''%'' @ v @ ''%'')] \<and>
        (\<forall>r. row_matches sel r \<longleftrightarrow> like_match (''%'' @ v @ ''%'') (i_name r))) \<and>
   (\<exists>v tbl r r'.
      (CHR ''%'' \<in> set v \<or> CHR ''_'' \<in> set v) \<and>
      r \<in> set tbl \<and> r' \<in> set tbl \<and>
      \<not> sublist v (i_name r) \<and>
      query (no_filter\<lparr>q_name := Some v\<rparr>) [] 0 500 tbl =
        Inr [\<lparr>bucket = i_bucket r, name = i_key r\<rparr>] \<and>
      query no_filter [] 0 500 tbl =
        Inr [\<lparr>bucket = i_bucket r, name = i_key r\<rparr>,
             \<lparr>bucket = i_bucket r', name = i_key r'\<rparr>] \<and>
      \<lparr>bucket = i_bucket r', name = i_key r'\<rparr> \<noteq> \<lparr>bucket = i_bucket r, name = i_key r\<rparr>)"
proof -
  let ?r = "example_row ''a'' ''abc'' 1 0 0"
  let ?r' = "example_row ''b'' ''xyz'' 1 0 0"
  have 1: "\<not> sublist ''a_c'' (i_name ?r)"
    by (simp add: example_row_def sublist_Cons_right)
  have 2: "query (no_filter\<lparr>q_name := Some ''a_c''\<rparr>) [] 0 500 [?r, ?r'] =
       Inr [\<lparr>bucket = i_bucket ?r, name = i_key ?r\<rparr>]"
    unfolding query_window name_filter_matches by (simp add: example_row_def)
  have 3: "query no_filter [] 0 500 [?r, ?r'] =
       Inr [\<lparr>bucket = i_bucket ?r, name = i_key ?r\<rparr>, \<lparr>bucket = i_bucket ?r', name = i_key ?r'\<rparr>]"
    unfolding query_window no_filter_matches by simp
  have 4: "\<lparr>bucket = i_bucket ?r', name = i_key ?r'\<rparr> \<noteq> \<lparr>bucket = i_bucket ?r, name = i_key ?r\<rparr>"
    by (simp add: example_row_def)
  have ex: "\<exists>v tbl r r'.
      (CHR ''%'' \<in> set v \<or> CHR ''_'' \<in> set v) \<and>
      r \<in> set tbl \<and> r' \<in> set tbl \<and>
      \<not> sublist v (i_name r) \<and>
      query (no_filter\<lparr>q_name := Some v\<rparr>) [] 0 500 tbl =
        Inr [\<lparr>bucket = i_bucket r, name = i_key r\<rparr>] \<and>
      query no_filter [] 0 500 tbl =
        Inr [\<lparr>bucket = i_bucket r, name = i_key r\<rparr>,
             \<lparr>bucket = i_bucket r', name = i_key r'\<rparr>] \<and>
      \<lparr>bucket = i_bucket r', name = i_key r'\<rparr> \<noteq> \<lparr>bucket = i_bucket r, name = i_key r\<rparr>"
    using 1 2 3 4
    by (intro exI [of _ "''a_c''"] exI [of _ "[?r, ?r']"] exI [of _ ?r] exI [of _ ?r']) simp
  from name_filter_selection ex show ?thesis by blast
qed

section \<open>Lemmas on the event loop and on the endpoints\<close>

text \<open>Runs, and properties kept by every step.\<close>

lemma exec_append: "exec prog faults (xs @ ys) st = exec prog faults ys (exec prog faults xs st)"
  by (simp add: exec_def)

lemma exec_Nil: "exec prog faults [] st = st"
  by (simp add: exec_def)

lemma exec_Cons: "exec prog faults (a # as) st = exec prog faults as (step prog faults st a)"
  by (simp add: exec_def)

lemma exec_invariant:
  assumes "I st" and "\<And>s a. I s \<Longrightarrow> I (step prog faults s a)"
  shows "I (exec prog faults sched st)"
  using assms(1)
proof (induction sched arbitrary: st)
  case Nil
  then show ?case by (simp add: exec_Nil)
next
  case (Cons a as)
  then show ?case by (simp add: exec_Cons assms(2))
qed

lemma run_invariant:
  assumes "I (init prog bk)" and "\<And>s a. I s \<Longrightarrow> I (step prog faults s a)"
  shows "I (run prog faults sched bk)"
  unfolding run_def Let_def
  by (rule exec_invariant [where I = I, OF _ assms(2)],
      rule exec_invariant [where I = I, OF _ assms(2)], rule assms(1))

lemma length_statuses_run_task [simp]:
  "length (statuses (run_task prog faults i st)) = length (statuses st)"
  by (simp add: run_task_def split: prod.splits)

lemma length_statuses_run_main [simp]:
  "length (statuses (run_main prog faults st)) = length (statuses st)"
  by (simp add: run_main_def enter_handler_def split: pc.splits option.splits list.splits prod.splits)

lemma length_statuses_step [simp]:
  "length (statuses (step prog faults st a)) = length (statuses st)"
  by (cases a) simp_all

lemma length_statuses_exec [simp]:
  "length (statuses (exec prog faults sched st)) = length (statuses st)"
  by (induction sched arbitrary: st) (simp_all add: exec_Nil exec_Cons)

text \<open>The steps of the awaiting coroutine, case by case.\<close>

lemma run_main_Awaiting_Some:
  "pc st = Awaiting \<Longrightarrow> gather_exc st = Some e \<Longrightarrow>
   run_main prog faults st = enter_handler (handle prog e) st"
  by (simp add: run_main_def)

lemma run_main_Awaiting_None:
  "pc st = Awaiting \<Longrightarrow> gather_exc st = None \<Longrightarrow>
   run_main prog faults st =
     (case those (map result_of (statuses st)) of
        Some rs \<Rightarrow> st\<lparr>pc := Responded (respond prog rs)\<rparr>
      | None \<Rightarrow> st)"
  by (simp add: run_main_def)

lemma run_main_Handling_Nil:
  "pc st = Handling [] e \<Longrightarrow> run_main prog faults st = st\<lparr>pc := Responded (Inl e)\<rparr>"
  by (simp add: run_main_def)

lemma run_main_Handling_Cons:
  "pc st = Handling (c # cs) e \<Longrightarrow> perform faults c (stores st) = (r, bk) \<Longrightarrow>
   run_main prog faults st =
     st\<lparr>stores := bk, log := log st @ [(c, r)],
        pc := (case r of
                 Inl e' \<Rightarrow> Responded (Inl e')
               | Inr v \<Rightarrow> if cs = [] then Responded (Inl e) else Handling cs e)\<rparr>"
  by (simp add: run_main_def)

lemma run_main_Responded:
  "pc st = Responded r \<Longrightarrow> run_main prog faults st = st"
  by (simp add: run_main_def)

lemma run_main_cases:
  obtains
    (wake_exc) e where "pc st = Awaiting" "gather_exc st = Some e"
      "run_main prog faults st = enter_handler (handle prog e) st"
  | (wake_ok) rs where "pc st = Awaiting" "gather_exc st = None"
      "those (map result_of (statuses st)) = Some rs"
      "run_main prog faults st = st\<lparr>pc := Responded (respond prog rs)\<rparr>"
  | (asleep) "pc st = Awaiting" "gather_exc st = None"
      "those (map result_of (statuses st)) = None" "run_main prog faults st = st"
  | (last) e where "pc st = Handling [] e"
      "run_main prog faults st = st\<lparr>pc := Responded (Inl e)\<rparr>"
  | (call) c cs e r bk where "pc st = Handling (c # cs) e"
      "perform faults c (stores st) = (r, bk)"
      "run_main prog faults st =
         st\<lparr>stores := bk, log := log st @ [(c, r)],
            pc := (case r of
                     Inl e' \<Rightarrow> Responded (Inl e')
                   | Inr v \<Rightarrow> if cs = [] then Responded (Inl e) else Handling cs e)\<rparr>"
  | (responded) r where "pc st = Responded r" "run_main prog faults st = st"
proof (cases "pc st")
  case Awaiting
  show ?thesis
  proof (cases "gather_exc st")
    case None
    show ?thesis
    proof (cases "those (map result_of (statuses st))")
      case n: None
      show ?thesis
        by (rule asleep) (simp_all add: Awaiting None n run_main_Awaiting_None)
    next
      case (Some rs)
      show ?thesis
        by (rule wake_ok [of rs]) (simp_all add: Awaiting None Some run_main_Awaiting_None)
    qed
  next
    case (Some e)
    show ?thesis
      by (rule wake_exc [of e]) (simp_all add: Awaiting Some run_main_Awaiting_Some)
  qed
next
  case (Handling cs e)
  show ?thesis
  proof (cases cs)
    case Nil
    show ?thesis
      by (rule last [of e]) (simp_all add: Handling Nil run_main_Handling_Nil)
  next
    case (Cons c cs')
    obtain r bk where p: "perform faults c (stores st) = (r, bk)"
      by (cases "perform faults c (stores st)")
    show ?thesis
      by (rule call [of c cs' e r bk])
        (simp_all add: Handling Cons p run_main_Handling_Cons [of st c cs' e faults r bk])
  qed
next
  case (Responded r)
  show ?thesis
    by (rule responded [of r]) (simp_all add: Responded run_main_Responded)
qed

text \<open>
  Every run ends with an answer: the tasks complete, \<open>gather\<close> then has a result or
  an exception, and an \<open>except\<close> clause makes finitely many calls.
\<close>

lemma cancel_task_not_Pending [simp]: "cancel_task s \<noteq> Pending"
  by (cases s) simp_all

lemma status_of_not_Pending [simp]: "status_of r \<noteq> Pending"
  by (cases r) simp_all

lemma step_keeps_done:
  assumes "j < length (statuses st)" and "statuses st ! j \<noteq> Pending"
  shows "statuses (step prog faults st a) ! j \<noteq> Pending"
proof (cases a)
  case (Task i)
  with assms show ?thesis
    by (auto simp: run_task_def nth_list_update split: prod.splits)
next
  case Main
  show ?thesis
    using assms
    by (cases rule: run_main_cases [where st = st and prog = prog and faults = faults])
      (simp_all add: Main enter_handler_def)
qed

lemma exec_keeps_done:
  "j < length (statuses st) \<Longrightarrow> statuses st ! j \<noteq> Pending \<Longrightarrow>
   statuses (exec prog faults sched st) ! j \<noteq> Pending"
  by (induction sched arbitrary: st) (simp_all add: exec_Nil exec_Cons step_keeps_done)

lemma run_task_completes:
  "i < length (tasks prog) \<Longrightarrow> i < length (statuses st) \<Longrightarrow>
   statuses (run_task prog faults i st) ! i \<noteq> Pending"
  by (auto simp: run_task_def split: prod.splits)

lemma tasks_complete:
  assumes "length (statuses st) = length (tasks prog)" and "k \<le> length (tasks prog)"
  shows "\<forall>j<k. statuses (exec prog faults (map Task [0..<k]) st) ! j \<noteq> Pending"
  using assms(2)
proof (induction k)
  case 0
  then show ?case by simp
next
  case (Suc k)
  let ?st = "exec prog faults (map Task [0..<k]) st"
  have len: "length (statuses ?st) = length (tasks prog)" using assms(1) by simp
  have IH: "\<forall>j<k. statuses ?st ! j \<noteq> Pending" using Suc by simp
  have e: "exec prog faults (map Task [0..<Suc k]) st = run_task prog faults k ?st"
    by (simp add: exec_append exec_Cons exec_Nil)
  show ?case
  proof (intro allI impI)
    fix j assume "j < Suc k"
    then consider "j < k" | "j = k" by linarith
    then show "statuses (exec prog faults (map Task [0..<Suc k]) st) ! j \<noteq> Pending"
    proof cases
      case 1
      with IH have "statuses ?st ! j \<noteq> Pending" by simp
      moreover have "j < length (statuses ?st)" using 1 Suc.prems len by simp
      ultimately have "statuses (step prog faults ?st (Task k)) ! j \<noteq> Pending"
        by (rule step_keeps_done [rotated])
      then show ?thesis unfolding e by simp
    next
      case 2
      have "statuses (run_task prog faults k ?st) ! k \<noteq> Pending"
        using Suc.prems len by (intro run_task_completes) simp_all
      then show ?thesis unfolding e 2 .
    qed
  qed
qed

lemma loop_ok_init: "loop_ok prog (init prog bk)"
  by (auto simp: loop_ok_def init_def)

lemma set_list_update_cases:
  "x \<in> set (xs[i := y]) \<Longrightarrow> x = y \<or> x \<in> set xs"
  by (metis insert_iff set_update_subset_insert subsetD)

lemma loop_ok_step: "loop_ok prog st \<Longrightarrow> loop_ok prog (step prog faults st a)"
proof (cases a)
  case (Task i)
  assume ok: "loop_ok prog st"
  show ?thesis
  proof (cases "i < length (tasks prog) \<and> i < length (statuses st) \<and> statuses st ! i = Pending")
    case False
    with ok show ?thesis by (auto simp: Task run_task_def)
  next
    case True
    obtain r bk where p: "perform faults (tasks prog ! i) (stores st) = (r, bk)"
      by (cases "perform faults (tasks prog ! i) (stores st)")
    have st': "step prog faults st a =
        st\<lparr>stores := bk, statuses := (statuses st)[i := status_of r],
           gather_exc := first_exc (gather_exc st) r\<rparr>"
      using True by (simp add: Task run_task_def p)
    show ?thesis
      unfolding st' using ok
      by (cases r; cases "gather_exc st")
        (auto simp: loop_ok_def dest!: set_list_update_cases)
  qed
next
  case Main
  assume ok: "loop_ok prog st"
  then show ?thesis
    by (cases rule: run_main_cases [where st = st and prog = prog and faults = faults])
      (auto simp: Main enter_handler_def loop_ok_def split: list.splits sum.splits)
qed

lemma those_Some:
  "\<forall>s \<in> set ss. \<exists>v. s = Returned v \<Longrightarrow> \<exists>rs. those (map result_of ss) = Some rs"
  by (induction ss) auto

lemma wake_up:
  assumes ok: "loop_ok prog st" and nopend: "Pending \<notin> set (statuses st)"
  shows "pc (run_main prog faults st) \<noteq> Awaiting"
proof (cases rule: run_main_cases [where st = st and prog = prog and faults = faults])
  case (wake_exc e)
  then show ?thesis by (simp add: enter_handler_def split: list.splits)
next
  case (wake_ok rs)
  then show ?thesis by simp
next
  case asleep
  have "\<forall>s \<in> set (statuses st). \<exists>v. s = Returned v"
  proof
    fix s assume s: "s \<in> set (statuses st)"
    with ok nopend asleep show "\<exists>v. s = Returned v"
      by (cases s) (auto simp: loop_ok_def)
  qed
  then obtain rs where "those (map result_of (statuses st)) = Some rs"
    using those_Some by blast
  with asleep show ?thesis by simp
next
  case (last e)
  then show ?thesis by simp
next
  case (call c cs e r bk)
  then show ?thesis by (simp split: sum.splits)
next
  case (responded r)
  then show ?thesis by simp
qed

lemma handler_finishes:
  "pc st = Handling cs e \<Longrightarrow>
   \<exists>r. pc (exec prog faults (replicate (Suc (length cs)) Main) st) = Responded r"
proof (induction cs arbitrary: st)
  case Nil
  then show ?case by (simp add: exec_Cons exec_Nil run_main_Handling_Nil)
next
  case (Cons c cs)
  let ?st = "run_main prog faults st"
  obtain r bk where p: "perform faults c (stores st) = (r, bk)"
    by (cases "perform faults c (stores st)")
  have "pc ?st = (case r of
                    Inl e' \<Rightarrow> Responded (Inl e')
                  | Inr v \<Rightarrow> if cs = [] then Responded (Inl e) else Handling cs e)"
    by (simp add: run_main_Handling_Cons [OF Cons.prems p])
  then consider r where "pc ?st = Responded r" | "pc ?st = Handling cs e"
    by (cases r) (auto split: if_splits)
  moreover have e: "exec prog faults (replicate (Suc (length (c # cs))) Main) st =
      exec prog faults (replicate (Suc (length cs)) Main) ?st"
    by (simp add: exec_Cons)
  ultimately show ?case
  proof cases
    case 1
    have "pc (exec prog faults ms ?st) = Responded r" if "set ms \<subseteq> {Main}" for ms
      using that 1
    proof (induction ms rule: rev_induct)
      case Nil
      then show ?case by (simp add: exec_Nil)
    next
      case (snoc m ms)
      then show ?case by (simp add: exec_append exec_Cons exec_Nil run_main_Responded)
    qed
    from this [of "replicate (Suc (length cs)) Main"]
    have "pc (exec prog faults (replicate (Suc (length cs)) Main) ?st) = Responded r"
      by (simp add: subset_iff)
    then show ?thesis unfolding e by blast
  next
    case 2
    from Cons.IH [OF 2] show ?thesis unfolding e .
  qed
qed

lemma all_done_at_end:
  assumes "length (statuses st) = length (tasks prog)"
  shows "Pending \<notin> set (statuses (exec prog faults (map Task [0..<length (tasks prog)]) st))"
proof -
  let ?st = "exec prog faults (map Task [0..<length (tasks prog)]) st"
  have "\<forall>j<length (tasks prog). statuses ?st ! j \<noteq> Pending"
    by (rule tasks_complete [OF assms]) simp
  moreover have "length (statuses ?st) = length (tasks prog)" using assms by simp
  ultimately show ?thesis by (auto simp: in_set_conv_nth)
qed

lemma run_responds: "\<exists>r. pc (run prog faults sched bk) = Responded r"
proof -
  let ?s0 = "exec prog faults sched (init prog bk)"
  let ?s1 = "exec prog faults (map Task [0..<length (tasks prog)]) ?s0"
  let ?s2 = "run_main prog faults ?s1"
  have ok0: "loop_ok prog ?s0"
    by (rule exec_invariant [where I = "loop_ok prog", OF loop_ok_init loop_ok_step])
  have ok1: "loop_ok prog ?s1"
    by (rule exec_invariant [where I = "loop_ok prog", OF ok0 loop_ok_step])
  have "length (statuses ?s0) = length (tasks prog)" using ok0 by (simp add: loop_ok_def)
  then have "Pending \<notin> set (statuses ?s1)" by (rule all_done_at_end)
  with ok1 have awake: "pc ?s2 \<noteq> Awaiting" by (rule wake_up)
  have s2: "exec prog faults (sched @ map Task [0..<length (tasks prog)] @ [Main]) (init prog bk) = ?s2"
    by (simp add: exec_append exec_Cons exec_Nil)
  show ?thesis
  proof (cases "pc ?s2")
    case Awaiting
    with awake show ?thesis by simp
  next
    case (Handling cs e)
    from handler_finishes [OF this] show ?thesis
      by (simp add: run_def Let_def s2 Handling del: replicate_Suc)
  next
    case (Responded r)
    then show ?thesis by (simp add: run_def Let_def s2 exec_Nil)
  qed
qed

lemma run_all_done: "Pending \<notin> set (statuses (run prog faults sched bk))"
proof -
  let ?s0 = "exec prog faults sched (init prog bk)"
  let ?s1 = "exec prog faults (map Task [0..<length (tasks prog)]) ?s0"
  have "length (statuses ?s0) = length (tasks prog)" by (simp add: init_def)
  then have d: "Pending \<notin> set (statuses ?s1)" by (rule all_done_at_end)
  have "run prog faults sched bk = exec prog faults
      (Main # replicate (steps_left (pc (run_main prog faults ?s1))) Main) ?s1"
    by (simp add: run_def Let_def exec_append exec_Cons exec_Nil)
  moreover have "Pending \<notin> set (statuses (exec prog faults ms ?s1))" for ms
    using d exec_keeps_done [of _ ?s1 prog faults ms]
    by (auto simp: in_set_conv_nth)
  ultimately show ?thesis by simp
qed

text \<open>The store on a table with one row per key.\<close>

lemma filter_has_id_unique:
  "one_row_per_key tbl \<Longrightarrow> length (filter (has_id object_id) tbl) \<le> 1"
proof (induction tbl)
  case Nil
  then show ?case by simp
next
  case (Cons a tbl)
  then have IH: "length (filter (has_id object_id) tbl) \<le> 1"
    and a: "(i_bucket a, i_key a) \<notin> (\<lambda>r. (i_bucket r, i_key r)) ` set tbl"
    by (simp_all add: one_row_per_key_def)
  show ?case
  proof (cases "has_id object_id a")
    case True
    with a have "\<forall>r \<in> set tbl. \<not> has_id object_id r"
      by (auto simp: has_id_def image_iff)
    then have "filter (has_id object_id) tbl = []" by (simp add: filter_empty_conv)
    with True show ?thesis by simp
  next
    case False
    with IH show ?thesis by simp
  qed
qed

lemma get_by_id_one_row:
  assumes "one_row_per_key tbl"
  shows "get_by_id object_id tbl =
     (if list_ex (has_id object_id) tbl then Inr (hd (filter (has_id object_id) tbl))
      else Inl KeyError)"
proof -
  from filter_has_id_unique [OF assms, of object_id]
  consider "filter (has_id object_id) tbl = []"
    | r where "filter (has_id object_id) tbl = [r]"
    by (cases "filter (has_id object_id) tbl"; cases "tl (filter (has_id object_id) tbl)") auto
  then show ?thesis
  proof cases
    case 1
    then have "\<not> list_ex (has_id object_id) tbl"
      by (simp add: list_ex_iff filter_empty_conv)
    with 1 show ?thesis by (simp add: get_by_id_def)
  next
    case 2
    then have "r \<in> set (filter (has_id object_id) tbl)" by simp
    then have "list_ex (has_id object_id) tbl" by (auto simp: list_ex_iff)
    with 2 show ?thesis by (simp add: get_by_id_def)
  qed
qed

lemma delete_one_row:
  assumes "one_row_per_key tbl"
  shows "delete object_id tbl =
     (if list_ex (has_id object_id) tbl then Inr (filter (\<lambda>r. \<not> has_id object_id r) tbl)
      else Inl KeyError)"
  by (simp add: delete_def get_by_id_one_row [OF assms])

lemma filter_absent:
  "\<not> list_ex (has_id object_id) tbl \<Longrightarrow> filter (\<lambda>r. \<not> has_id object_id r) tbl = tbl"
  by (simp add: list_ex_iff)

text \<open>
  \<open>delete_image\<close>: the two deletes act on different stores, so the outcome does not
  depend on the schedule.
\<close>

lemma run_task_skip:
  "\<not> (i < length (tasks prog) \<and> i < length (statuses st) \<and> statuses st ! i = Pending) \<Longrightarrow>
   run_task prog faults i st = st"
  by (auto simp: run_task_def)

lemma delete_inv_init: "delete_inv object_id bk (init (delete_program object_id) bk)"
  by (simp add: delete_inv_def init_def delete_program_def)

lemma delete_inv_step:
  assumes wf: "one_row_per_key (metadata_store bk)"
    and inv: "delete_inv object_id bk st"
  shows "delete_inv object_id bk (step (delete_program object_id) faults st a)"
proof -
  let ?prog = "delete_program object_id"
  have tasks: "tasks ?prog = [Delete_object object_id, Metadata_delete object_id]"
    by (simp add: delete_program_def)
  from inv obtain s0 s1 where
    sts: "statuses st = [s0, s1]" and
    o: "s0 = Pending \<and> object_store (stores st) = object_store bk \<or>
         s0 = (if object_store bk object_id = None then Raised KeyError else Returned Done) \<and>
         object_store (stores st) = (object_store bk)(object_id := None)" and
    m: "s1 = Pending \<and> metadata_store (stores st) = metadata_store bk \<or>
         s1 = (if list_ex (has_id object_id) (metadata_store bk) then Returned Done
               else Raised KeyError) \<and>
         metadata_store (stores st) =
           filter (\<lambda>r. \<not> has_id object_id r) (metadata_store bk)" and
    g: "gather_exc st =
          (if s0 = Raised KeyError \<or> s1 = Raised KeyError then Some KeyError else None)" and
    p: "pc st = Awaiting \<or> pc st = Responded (delete_response object_id bk)"
    unfolding delete_inv_def by blast
  show ?thesis
  proof (cases a)
    case (Task i)
    have "i = 0 \<and> s0 = Pending \<or> i = 1 \<and> s1 = Pending \<or>
        \<not> (i < length (tasks ?prog) \<and> i < length (statuses st) \<and> statuses st ! i = Pending)"
      by (cases i; cases "i - 1") (auto simp: tasks sts)
    then consider "i = 0" "s0 = Pending" | "i = 1" "s1 = Pending"
      | "run_task ?prog faults i st = st"
      using run_task_skip [of i ?prog st faults] by blast
    then show ?thesis
    proof cases
      case 1
      with o have os: "object_store (stores st) = object_store bk"
        by (auto split: if_splits)
      show ?thesis
        using 1 os m g p
        by (cases "object_store bk object_id")
          (auto simp: Task run_task_def tasks sts delete_inv_def)
    next
      case 2
      with m have ms: "metadata_store (stores st) = metadata_store bk"
        by (auto split: if_splits)
      show ?thesis
        using 2 ms o g p
        by (cases "list_ex (has_id object_id) (metadata_store bk)")
          (auto simp: Task run_task_def tasks sts delete_inv_def delete_one_row [OF wf]
            filter_absent)
    next
      case 3
      with inv show ?thesis by (simp add: Task)
    qed
  next
    case Main
    show ?thesis
    proof (cases rule: run_main_cases [where st = st and prog = ?prog and faults = faults])
      case (wake_exc e)
      with g have e: "e = KeyError" and absent: "s0 = Raised KeyError \<or> s1 = Raised KeyError"
        by (auto split: if_splits)
      from absent o m have "delete_response object_id bk = Inl (HTTPException 404)"
        by (auto simp: delete_response_def split: if_splits)
      with wake_exc e sts o m g show ?thesis
        by (simp add: Main delete_inv_def enter_handler_def delete_program_def)
    next
      case (wake_ok rs)
      then have "s0 \<noteq> Pending" "s1 \<noteq> Pending" "s0 \<noteq> Raised KeyError" "s1 \<noteq> Raised KeyError"
        by (auto simp: sts split: option.splits)
      with o m have "delete_response object_id bk = Inr Null"
        by (auto simp: delete_response_def split: if_splits)
      with wake_ok sts o m g show ?thesis
        by (simp add: Main delete_inv_def delete_program_def)
    next
      case asleep
      with inv show ?thesis by (simp add: Main)
    next
      case (last e)
      with p show ?thesis by simp
    next
      case (call c cs e r bk')
      with p show ?thesis by simp
    next
      case (responded r)
      with inv show ?thesis by (simp add: Main)
    qed
  qed
qed

lemma delete_image_result:
  assumes wf: "one_row_per_key (metadata_store bk)"
  shows "pc (delete_image sched faults bkt nm bk) =
           Responded (delete_response \<lparr>bucket = bkt, name = nm\<rparr> bk) \<and>
         stores (delete_image sched faults bkt nm bk) =
           bk\<lparr>object_store := (object_store bk)(\<lparr>bucket = bkt, name = nm\<rparr> := None),
              metadata_store :=
                filter (\<lambda>r. \<not> has_id \<lparr>bucket = bkt, name = nm\<rparr> r) (metadata_store bk)\<rparr>"
proof -
  let ?id = "\<lparr>bucket = bkt, name = nm\<rparr>"
  let ?fin = "run (delete_program ?id) faults sched bk"
  have inv: "delete_inv ?id bk ?fin"
    by (rule run_invariant [where I = "delete_inv ?id bk", OF delete_inv_init])
      (rule delete_inv_step [OF wf])
  obtain r where r: "pc ?fin = Responded r" using run_responds by blast
  have nopend: "Pending \<notin> set (statuses ?fin)" by (rule run_all_done)
  from inv r have "pc ?fin = Responded (delete_response ?id bk)"
    by (auto simp: delete_inv_def)
  moreover from inv nopend have
    "object_store (stores ?fin) = (object_store bk)(?id := None)"
    "metadata_store (stores ?fin) = filter (\<lambda>r. \<not> has_id ?id r) (metadata_store bk)"
    by (auto simp: delete_inv_def)
  then have "stores ?fin = bk\<lparr>object_store := (object_store bk)(?id := None),
              metadata_store := filter (\<lambda>r. \<not> has_id ?id r) (metadata_store bk)\<rparr>"
    by (cases "stores ?fin"; cases bk) simp
  ultimately show ?thesis by (simp add: delete_image_def)
qed

lemma one_row_per_key_Nil: "one_row_per_key []"
  by (simp add: one_row_per_key_def)

lemma one_row_per_key_add:
  assumes "one_row_per_key tbl" and "add object_id metadata tbl = Inr tbl'"
  shows "one_row_per_key tbl'"
proof -
  let ?img = "pydantic_to_orm_image object_id metadata"
  from assms(2) have fresh: "\<not> list_ex (has_id object_id) tbl" and tbl': "tbl' = tbl @ [?img]"
    by (auto simp: add_def Let_def split: if_splits)
  have "(i_bucket ?img, i_key ?img) = (bucket object_id, name object_id)"
    by (simp add: pydantic_to_orm_image_def)
  moreover from fresh have "(bucket object_id, name object_id) \<notin>
      (\<lambda>r. (i_bucket r, i_key r)) ` set tbl"
    by (auto simp: list_ex_iff has_id_def)
  ultimately show ?thesis
    using assms(1) by (simp add: tbl' one_row_per_key_def)
qed

lemma one_row_per_key_delete:
  "one_row_per_key tbl \<Longrightarrow> delete object_id tbl = Inr tbl' \<Longrightarrow> one_row_per_key tbl'"
  by (auto simp: delete_def one_row_per_key_def distinct_map_filter split: sum.splits)

lemma one_row_per_key_filter:
  "one_row_per_key tbl \<Longrightarrow> one_row_per_key (filter P tbl)"
  by (simp add: one_row_per_key_def distinct_map_filter)

lemma get_KeyError_iff:
  "one_row_per_key tbl \<Longrightarrow>
   get object_id tbl = Inl KeyError \<longleftrightarrow> \<not> list_ex (has_id object_id) tbl"
  by (simp add: get_def get_by_id_one_row)

lemma get_Inr_iff:
  "one_row_per_key tbl \<Longrightarrow>
   (\<exists>m. get object_id tbl = Inr m) \<longleftrightarrow> list_ex (has_id object_id) tbl"
  by (simp add: get_def get_by_id_one_row)

lemma absent_after_filter:
  "\<not> list_ex (has_id object_id) (filter (\<lambda>r. \<not> has_id object_id r) tbl)"
  by (simp add: list_ex_iff)

lemma run_unfold:
  "run prog faults sched bk =
     (let st = exec prog faults (sched @ map Task [0..<length (tasks prog)] @ [Main])
                 (init prog bk)
      in exec prog faults (replicate (steps_left (pc st)) Main) st)"
  by (simp add: run_def)

text \<open>\<open>get_image\<close>: the stores do not change, and an answer leaves no task pending.\<close>

lemma get_one_row:
  assumes "one_row_per_key tbl"
  shows "get object_id tbl =
     (if list_ex (has_id object_id) tbl
      then Inr (orm_image_to_pydantic (hd (filter (has_id object_id) tbl)))
      else Inl KeyError)"
  by (simp add: get_def get_by_id_one_row [OF assms])

lemma cancel_task_if: "cancel_task s = (if s = Pending then Cancelled else s)"
  by (cases s) simp_all

lemma get_inv_init: "get_inv object_id bk (init (get_program object_id) bk)"
  by (simp add: get_inv_def init_def get_program_def)

lemma get_inv_step:
  assumes wf: "one_row_per_key (metadata_store bk)"
    and inv: "get_inv object_id bk st"
  shows "get_inv object_id bk (step (get_program object_id) faults st a)"
proof -
  let ?prog = "get_program object_id"
  let ?o = "case object_store bk object_id of
                 None \<Rightarrow> Raised KeyError
               | Some image_stream \<Rightarrow> Returned (Stream image_stream)"
  let ?m = "if list_ex (has_id object_id) (metadata_store bk) then
                 Returned (Metadata (orm_image_to_pydantic
                   (hd (filter (has_id object_id) (metadata_store bk)))))
               else Raised KeyError"
  have tasks: "tasks ?prog = [Get_object object_id, Metadata_get object_id]"
    by (simp add: get_program_def)
  from inv obtain s0 s1 where
    sts: "statuses st = [s0, s1]" and bk: "stores st = bk" and
    o: "s0 = Pending \<or> s0 = Cancelled \<or> s0 = ?o" and
    m: "s1 = Pending \<or> s1 = Cancelled \<or> s1 = ?m" and
    g: "gather_exc st =
          (if s0 = Raised KeyError \<or> s1 = Raised KeyError then Some KeyError else None)" and
    p: "pc st = Awaiting \<and> s0 \<noteq> Cancelled \<and> s1 \<noteq> Cancelled \<or>
         pc st = Responded (get_response object_id bk) \<and> s0 \<noteq> Pending \<and> s1 \<noteq> Pending"
    unfolding get_inv_def by blast
  show ?thesis
  proof (cases a)
    case (Task i)
    have "i = 0 \<and> s0 = Pending \<or> i = 1 \<and> s1 = Pending \<or>
        \<not> (i < length (tasks ?prog) \<and> i < length (statuses st) \<and> statuses st ! i = Pending)"
      by (cases i; cases "i - 1") (auto simp: tasks sts)
    then consider "i = 0" "s0 = Pending" | "i = 1" "s1 = Pending"
      | "run_task ?prog faults i st = st"
      using run_task_skip [of i ?prog st faults] by blast
    then show ?thesis
    proof cases
      case 1
      with p have aw: "pc st = Awaiting" "s1 \<noteq> Cancelled" by auto
      show ?thesis
        using 1 aw bk m g
        by (cases "object_store bk object_id")
          (auto simp: Task run_task_def tasks sts get_inv_def)
    next
      case 2
      with p have aw: "pc st = Awaiting" "s0 \<noteq> Cancelled" by auto
      show ?thesis
        using 2 aw bk o g
        by (cases "list_ex (has_id object_id) (metadata_store bk)")
          (auto simp: Task run_task_def tasks sts get_inv_def get_one_row [OF wf])
    next
      case 3
      with inv show ?thesis by (simp add: Task)
    qed
  next
    case Main
    show ?thesis
    proof (cases rule: run_main_cases [where st = st and prog = ?prog and faults = faults])
      case (wake_exc e)
      with g have e: "e = KeyError" and absent: "s0 = Raised KeyError \<or> s1 = Raised KeyError"
        by (auto split: if_splits)
      from wake_exc p have nc: "s0 \<noteq> Cancelled" "s1 \<noteq> Cancelled" by auto
      from absent o m nc have r: "get_response object_id bk = Inl (HTTPException 404)"
        by (auto simp: get_response_def split: if_splits option.splits)
      have c0: "cancel_task s0 = Pending \<or> cancel_task s0 = Cancelled \<or> cancel_task s0 = ?o"
        using o by (auto simp: cancel_task_if)
      have c1: "cancel_task s1 = Pending \<or> cancel_task s1 = Cancelled \<or> cancel_task s1 = ?m"
        using m by (auto simp: cancel_task_if)
      have k0: "cancel_task s0 = Raised KeyError \<longleftrightarrow> s0 = Raised KeyError"
        by (cases s0) auto
      have k1: "cancel_task s1 = Raised KeyError \<longleftrightarrow> s1 = Raised KeyError"
        by (cases s1) auto
      show ?thesis
        unfolding Main step.simps wake_exc(3) e get_inv_def
        by (rule exI [of _ "cancel_task s0"], rule exI [of _ "cancel_task s1"])
          (use c0 c1 k0 k1 g bk r in
            \<open>simp add: enter_handler_def get_program_def sts\<close>)
    next
      case (wake_ok rs)
      then have r0: "\<exists>v. s0 = Returned v" and r1: "\<exists>v. s1 = Returned v"
        by (cases s0; cases s1; auto simp: sts split: option.splits)+
      with o m obtain d where d: "object_store bk object_id = Some d" "s0 = Returned (Stream d)"
        and h: "list_ex (has_id object_id) (metadata_store bk)"
        "s1 = Returned (Metadata (orm_image_to_pydantic
                   (hd (filter (has_id object_id) (metadata_store bk)))))"
        by (auto split: option.splits if_splits)
      from wake_ok have rs: "rs = [Stream d, Metadata (orm_image_to_pydantic
                   (hd (filter (has_id object_id) (metadata_store bk))))]"
        by (simp add: sts d h)
      have "respond ?prog rs = get_response object_id bk"
        by (simp add: rs get_program_def get_response_def d h orm_image_to_pydantic_def)
      with wake_ok sts bk o m g d h show ?thesis
        by (simp add: Main get_inv_def)
    next
      case asleep
      with inv show ?thesis by (simp add: Main)
    next
      case (last e)
      with p show ?thesis by simp
    next
      case (call c cs e r bk')
      with p show ?thesis by simp
    next
      case (responded r)
      with inv show ?thesis by (simp add: Main)
    qed
  qed
qed

text \<open>
  \<open>create_uav_image\<close>: the \<open>except\<close> clause entered is the one of the exception
  \<open>gather\<close> raised, and it raises that exception when its calls have all succeeded.
\<close>

lemma create_handle:
  "handle (create_program create_thumbnail metadata image_bytes object_id) e =
     \<lparr>cancel = False, compensate = rollback_calls object_id e, reraise = e\<rparr>"
  by (cases e) (simp_all add: create_program_def rollback_calls_def uncaught_def Let_def)

lemma create_respond:
  "respond (create_program create_thumbnail metadata image_bytes object_id) rs =
     Inr (CreateResponse object_id)"
  by (simp add: create_program_def Let_def)

lemma those_Some_no_Pending:
  "those (map result_of ss) = Some rs \<Longrightarrow> Pending \<notin> set ss"
proof (induction ss arbitrary: rs)
  case Nil
  then show ?case by simp
next
  case (Cons s ss)
  then show ?case by (cases s) (auto split: option.splits)
qed

lemma create_inv_init:
  "create_inv object_id (init prog bk)"
  by (simp add: create_inv_def init_def)

lemma create_inv_step:
  assumes inv: "create_inv object_id st"
  shows "create_inv object_id
     (step (create_program create_thumbnail metadata image_bytes object_id) faults st a)"
proof -
  let ?prog = "create_program create_thumbnail metadata image_bytes object_id"
  from inv have
    i1: "pc st = Awaiting \<Longrightarrow> log st = []" and
    i2: "gather_exc st = None \<Longrightarrow> pc st \<noteq> Awaiting \<Longrightarrow> Pending \<notin> set (statuses st)" and
    i3: "\<And>cs e. pc st = Handling cs e \<Longrightarrow>
        gather_exc st = Some e \<and> cs \<noteq> [] \<and> compensated st \<and>
        map fst (log st) @ cs = rollback_calls object_id e" and
    i4: "\<And>r e. pc st = Responded r \<Longrightarrow> gather_exc st = Some e \<Longrightarrow> compensated st \<Longrightarrow>
        r = Inl e \<and> map fst (log st) = rollback_calls object_id e"
    unfolding create_inv_def by blast+
  show ?thesis
  proof (cases a)
    case (Task i)
    show ?thesis
    proof (cases "i < length (tasks ?prog) \<and> i < length (statuses st) \<and> statuses st ! i = Pending")
      case False
      then have "run_task ?prog faults i st = st" by (rule run_task_skip)
      with inv show ?thesis by (simp add: Task)
    next
      case True
      then have pend: "Pending \<in> set (statuses st)" by (metis nth_mem)
      obtain r bk where p: "perform faults (tasks ?prog ! i) (stores st) = (r, bk)"
        by (cases "perform faults (tasks ?prog ! i) (stores st)")
      let ?st' = "st\<lparr>stores := bk, statuses := (statuses st)[i := status_of r],
           gather_exc := first_exc (gather_exc st) r\<rparr>"
      have st': "step ?prog faults st a = ?st'"
        using True by (simp add: Task run_task_def p)
      have g: "gather_exc st = None \<longrightarrow> pc st = Awaiting" using i2 pend by blast
      have same: "gather_exc st = Some e \<Longrightarrow> gather_exc ?st' = Some e" for e by simp
      have c: "compensated ?st' = compensated st" by (simp add: compensated_def)
      have "create_inv object_id ?st'"
        unfolding create_inv_def
      proof (intro conjI allI impI)
        assume "pc ?st' = Awaiting"
        then show "log ?st' = []" using i1 by simp
      next
        assume "gather_exc ?st' = None \<and> pc ?st' \<noteq> Awaiting"
        then have "gather_exc st = None" "pc st \<noteq> Awaiting"
          by (cases "gather_exc st"; simp)+
        with g show "Pending \<notin> set (statuses ?st')" by simp
      next
        fix cs e assume h: "pc ?st' = Handling cs e"
        then have h': "pc st = Handling cs e" by simp
        from i3 [OF h'] show "gather_exc ?st' = Some e" by simp
        from i3 [OF h'] show "cs \<noteq> []" by simp
        from i3 [OF h'] show "compensated ?st'" by (simp add: compensated_def)
        from i3 [OF h'] show "map fst (log ?st') @ cs = rollback_calls object_id e" by simp
      next
        fix r' e assume h: "pc ?st' = Responded r' \<and> gather_exc ?st' = Some e \<and> compensated ?st'"
        then have pc: "pc st = Responded r'" and comp: "compensated st" by (simp_all add: c)
        with g obtain e0 where e0: "gather_exc st = Some e0" by (cases "gather_exc st") auto
        with h have "e0 = e" by simp
        with i4 [OF pc _ comp] e0 show "r' = Inl e" by simp
      next
        fix r' e assume h: "pc ?st' = Responded r' \<and> gather_exc ?st' = Some e \<and> compensated ?st'"
        then have pc: "pc st = Responded r'" and comp: "compensated st" by (simp_all add: c)
        with g obtain e0 where e0: "gather_exc st = Some e0" by (cases "gather_exc st") auto
        with h have "e0 = e" by simp
        with i4 [OF pc _ comp] e0 show "map fst (log ?st') = rollback_calls object_id e" by simp
      qed
      then show ?thesis by (simp add: st')
    qed
  next
    case Main
    show ?thesis
    proof (cases rule: run_main_cases [where st = st and prog = ?prog and faults = faults])
      case (wake_exc e)
      have l: "log st = []" using i1 wake_exc by simp
      show ?thesis
        using wake_exc l
        by (auto simp: Main create_inv_def create_handle enter_handler_def compensated_def
            split: list.splits)
    next
      case (wake_ok rs)
      from wake_ok(3) have "Pending \<notin> set (statuses st)" by (rule those_Some_no_Pending)
      with wake_ok show ?thesis
        by (simp add: Main create_inv_def)
    next
      case asleep
      with inv show ?thesis by (simp add: Main)
    next
      case (last e)
      with i3 show ?thesis by blast
    next
      case (call c cs e r bk')
      from i3 [OF call(1)] have g: "gather_exc st = Some e" and comp: "compensated st"
        and l: "map fst (log st) @ c # cs = rollback_calls object_id e" by simp_all
      show ?thesis
      proof (cases r)
        case (Inl e')
        with call g show ?thesis
          by (simp add: Main create_inv_def compensated_def succeeded_def)
      next
        case (Inr v)
        with call g comp l show ?thesis
          by (auto simp: Main create_inv_def compensated_def succeeded_def)
      qed
    next
      case (responded r)
      with inv show ?thesis by (simp add: Main)
    qed
  qed
qed

lemma first_raised_init: "first_raised (init prog bk)"
  by (simp add: first_raised_def init_def)

lemma first_raised_step:
  assumes "first_raised st"
  shows "first_raised (step prog faults st a)"
proof (cases a)
  case (Task i)
  show ?thesis
  proof (cases "i < length (tasks prog) \<and> i < length (statuses st) \<and> statuses st ! i = Pending")
    case False
    then have "run_task prog faults i st = st" by (rule run_task_skip)
    with assms show ?thesis by (simp add: Task)
  next
    case True
    obtain r bk where p: "perform faults (tasks prog ! i) (stores st) = (r, bk)"
      by (cases "perform faults (tasks prog ! i) (stores st)")
    have st': "step prog faults st a =
        st\<lparr>stores := bk, statuses := (statuses st)[i := status_of r],
           gather_exc := first_exc (gather_exc st) r\<rparr>"
      using True by (simp add: Task run_task_def p)
    have keep: "Raised e \<in> set ((statuses st)[i := status_of r])"
      if "Raised e \<in> set (statuses st)" for e
    proof -
      from that obtain j where j: "j < length (statuses st)" "statuses st ! j = Raised e"
        by (auto simp: in_set_conv_nth)
      with True have "j \<noteq> i" by auto
      with j have "(statuses st)[i := status_of r] ! j = Raised e" by simp
      with j(1) show ?thesis by (metis length_list_update nth_mem)
    qed
    have new: "status_of r \<in> set ((statuses st)[i := status_of r])"
      using True by (simp add: set_update_memI)
    show ?thesis
      unfolding st' using assms keep new
      by (cases "gather_exc st"; cases r) (auto simp: first_raised_def)
  qed
next
  case Main
  have c: "Raised e \<in> set (map cancel_task ss)" if "Raised e \<in> set ss" for e ss
    using that by (force simp: image_iff)
  from assms show ?thesis
    by (cases rule: run_main_cases [where st = st and prog = prog and faults = faults])
      (auto simp: Main first_raised_def enter_handler_def c simp del: set_map)
qed

lemma only_failure_is_first:
  assumes "Raised e \<in> set (statuses (run prog faults sched bk))"
    and "\<forall>e'. Raised e' \<in> set (statuses (run prog faults sched bk)) \<longrightarrow> e' = e"
  shows "gather_exc (run prog faults sched bk) = Some e"
proof -
  let ?fin = "run prog faults sched bk"
  have ok: "loop_ok prog ?fin"
    by (rule run_invariant [where I = "loop_ok prog", OF loop_ok_init loop_ok_step])
  have fr: "first_raised ?fin"
    by (rule run_invariant [where I = first_raised, OF first_raised_init first_raised_step])
  from ok assms(1) obtain e0 where e0: "gather_exc ?fin = Some e0"
    by (cases "gather_exc ?fin") (auto simp: loop_ok_def)
  with fr have "Raised e0 \<in> set (statuses ?fin)" by (simp add: first_raised_def)
  with assms(2) e0 show ?thesis by simp
qed

text \<open>Three runs of \<open>create_uav_image\<close> on empty stores, step by step.\<close>

lemma create_tasks:
  "tasks (create_program create_thumbnail metadata image_bytes object_id) =
     [Create_object object_id image_bytes, Metadata_add object_id metadata,
      Create_object (thumbnail_id object_id) (create_thumbnail image_bytes)]"
  by (simp add: create_program_def Let_def)

lemma create_eval:
  "create_uav_image sched faults create_thumbnail metadata image_bytes bkt nm bk =
     (let prog = create_program create_thumbnail metadata image_bytes \<lparr>bucket = bkt, name = nm\<rparr>;
          st = foldl (step prog faults) (init prog bk) (sched @ [Task 0, Task 1, Task 2, Main])
      in foldl (step prog faults) st (replicate (steps_left (pc st)) Main))"
proof -
  have "[0..<length (tasks (create_program create_thumbnail metadata image_bytes
      \<lparr>bucket = bkt, name = nm\<rparr>))] = [0, 1, 2]"
    by (simp add: create_tasks upt_rec)
  then show ?thesis
    by (simp add: create_uav_image_def run_def exec_def Let_def)
qed

lemmas eval_simps =
  create_tasks create_handle create_respond rollback_calls_def init_def run_task_def
  run_main_def enter_handler_def add_def delete_def get_by_id_def has_id_def thumbnail_id_def
  pydantic_to_orm_image_def metadata_add_fails_def object_write_fails_def empty_backends_def
  no_faults_def

lemma create_race_run:
  "create_uav_image [Task 1, Main, Main] metadata_add_fails (\<lambda>b. ''thumb'')
     example_metadata ''raw'' ''images'' ''abc'' empty_backends =
    \<lparr>stores = \<lparr>object_store = [\<lparr>bucket = ''images'', name = ''abc''\<rparr> \<mapsto> ''raw'',
          thumbnail_id \<lparr>bucket = ''images'', name = ''abc''\<rparr> \<mapsto> ''thumb''],
        metadata_store = []\<rparr>,
     statuses = [Returned Done, Raised MetadataOperationError, Returned Done],
     gather_exc = Some MetadataOperationError,
     pc = Responded (Inl KeyError),
     log = [(Delete_object \<lparr>bucket = ''images'', name = ''abc''\<rparr>, Inl KeyError)]\<rparr>"
proof -
  let ?prog = "create_program (\<lambda>b. ''thumb'') example_metadata ''raw''
      \<lparr>bucket = ''images'', name = ''abc''\<rparr>"
  have st: "foldl (step ?prog metadata_add_fails) (init ?prog empty_backends)
      ([Task 1, Main, Main] @ [Task 0, Task 1, Task 2, Main]) =
    \<lparr>stores = \<lparr>object_store = [\<lparr>bucket = ''images'', name = ''abc''\<rparr> \<mapsto> ''raw'',
          thumbnail_id \<lparr>bucket = ''images'', name = ''abc''\<rparr> \<mapsto> ''thumb''],
        metadata_store = []\<rparr>,
     statuses = [Returned Done, Raised MetadataOperationError, Returned Done],
     gather_exc = Some MetadataOperationError,
     pc = Responded (Inl KeyError),
     log = [(Delete_object \<lparr>bucket = ''images'', name = ''abc''\<rparr>, Inl KeyError)]\<rparr>"
    by (simp add: eval_simps)
  show ?thesis
    unfolding create_eval Let_def st by simp
qed

lemma create_compensated_run:
  "create_uav_image [Task 0, Task 2, Task 1] metadata_add_fails (\<lambda>b. ''thumb'')
     example_metadata ''raw'' ''images'' ''abc'' empty_backends =
    \<lparr>stores = \<lparr>object_store = Map.empty, metadata_store = []\<rparr>,
     statuses = [Returned Done, Raised MetadataOperationError, Returned Done],
     gather_exc = Some MetadataOperationError,
     pc = Responded (Inl MetadataOperationError),
     log = [(Delete_object \<lparr>bucket = ''images'', name = ''abc''\<rparr>, Inr Done),
            (Delete_object (thumbnail_id \<lparr>bucket = ''images'', name = ''abc''\<rparr>), Inr Done)]\<rparr>"
proof -
  let ?prog = "create_program (\<lambda>b. ''thumb'') example_metadata ''raw''
      \<lparr>bucket = ''images'', name = ''abc''\<rparr>"
  have st: "foldl (step ?prog metadata_add_fails) (init ?prog empty_backends)
      ([Task 0, Task 2, Task 1] @ [Task 0, Task 1, Task 2, Main]) =
    \<lparr>stores = \<lparr>object_store = [\<lparr>bucket = ''images'', name = ''abc''\<rparr> \<mapsto> ''raw'',
          thumbnail_id \<lparr>bucket = ''images'', name = ''abc''\<rparr> \<mapsto> ''thumb''],
        metadata_store = []\<rparr>,
     statuses = [Returned Done, Raised MetadataOperationError, Returned Done],
     gather_exc = Some MetadataOperationError,
     pc = Handling [Delete_object \<lparr>bucket = ''images'', name = ''abc''\<rparr>,
            Delete_object (thumbnail_id \<lparr>bucket = ''images'', name = ''abc''\<rparr>)]
            MetadataOperationError,
     log = []\<rparr>"
    by (simp add: eval_simps)
  show ?thesis
    unfolding create_eval Let_def st by (simp add: eval_simps fun_upd_twist)
qed

lemma create_orphan_run:
  "create_uav_image [Task 1, Task 2, Task 0]
     (object_write_fails \<lparr>bucket = ''images'', name = ''abc''\<rparr>) (\<lambda>b. ''thumb'')
     example_metadata ''raw'' ''images'' ''abc'' empty_backends =
    \<lparr>stores = \<lparr>object_store =
          [thumbnail_id \<lparr>bucket = ''images'', name = ''abc''\<rparr> \<mapsto> ''thumb''],
        metadata_store = []\<rparr>,
     statuses = [Raised ObjectOperationError, Returned Done, Returned Done],
     gather_exc = Some ObjectOperationError,
     pc = Responded (Inl ObjectOperationError),
     log = [(Metadata_delete \<lparr>bucket = ''images'', name = ''abc''\<rparr>, Inr Done)]\<rparr>"
proof -
  let ?id = "\<lparr>bucket = ''images'', name = ''abc''\<rparr>"
  let ?prog = "create_program (\<lambda>b. ''thumb'') example_metadata ''raw'' ?id"
  have st: "foldl (step ?prog (object_write_fails ?id)) (init ?prog empty_backends)
      ([Task 1, Task 2, Task 0] @ [Task 0, Task 1, Task 2, Main]) =
    \<lparr>stores = \<lparr>object_store = [thumbnail_id ?id \<mapsto> ''thumb''],
        metadata_store = [pydantic_to_orm_image ?id example_metadata]\<rparr>,
     statuses = [Raised ObjectOperationError, Returned Done, Returned Done],
     gather_exc = Some ObjectOperationError,
     pc = Handling [Metadata_delete ?id] ObjectOperationError,
     log = []\<rparr>"
    by (simp add: eval_simps)
  show ?thesis
    unfolding create_eval Let_def st by (simp add: eval_simps)
qed

lemma thumbnail_id_derived:
  "bucket (thumbnail_id object_id) = bucket object_id \<and>
   name (thumbnail_id object_id) = name object_id @ ''.thumbnail'' \<and>
   thumbnail_id object_id \<noteq> object_id"
proof -
  have "name (thumbnail_id object_id) \<noteq> name object_id"
    by (simp add: thumbnail_id_def)
  then have "thumbnail_id object_id \<noteq> object_id" by auto
  then show ?thesis by (simp add: thumbnail_id_def)
qed

lemma delete_image_keeps_thumbnail:
  assumes "one_row_per_key (metadata_store bk)"
  shows "object_store (stores (delete_image sched faults bkt nm bk))
           (thumbnail_id \<lparr>bucket = bkt, name = nm\<rparr>) =
         object_store bk (thumbnail_id \<lparr>bucket = bkt, name = nm\<rparr>)"
  using thumbnail_id_derived [of "\<lparr>bucket = bkt, name = nm\<rparr>"]
  by (simp add: delete_image_result [OF assms])

lemma get_response_cases:
  assumes "one_row_per_key (metadata_store bk)"
  shows
    "(object_store bk object_id = None \<or> get object_id (metadata_store bk) = Inl KeyError \<longrightarrow>
        get_response object_id bk = Inl (HTTPException 404)) \<and>
     (\<forall>r. get_response object_id bk = Inr r \<longrightarrow>
        (\<exists>image_stream metadata.
           object_store bk object_id = Some image_stream \<and>
           get object_id (metadata_store bk) = Inr metadata \<and>
           r = StreamingResponse image_stream (IMAGE_FORMAT_TO_MIME_TYPES (m_format metadata))))"
  by (auto simp: get_response_def get_one_row [OF assms] orm_image_to_pydantic_def
      split: option.splits if_splits)

lemma orm_roundtrip:
  "orm_image_to_pydantic (pydantic_to_orm_image object_id metadata) = metadata"
  by (simp add: orm_image_to_pydantic_def pydantic_to_orm_image_def)

lemma get_response_found:
  assumes "one_row_per_key (metadata_store bk)"
    and "object_store bk object_id = Some image_stream"
    and "get object_id (metadata_store bk) = Inr metadata"
  shows "get_response object_id bk =
     Inr (StreamingResponse image_stream (IMAGE_FORMAT_TO_MIME_TYPES (m_format metadata)))"
  using assms(2,3)
  by (auto simp: get_response_def get_one_row [OF assms(1)] orm_image_to_pydantic_def
      split: if_splits)

section \<open>Properties of the image endpoints\<close>


text \<open>
  Claim C1, as amended. Take any run of \<open>create_uav_image\<close> in which every compensating
  call the orchestrator made has succeeded. If the exception \<open>gather\<close> raised is the
  \<open>MetadataOperationError\<close> of the metadata add (it is, when the add is the only
  sub-operation that failed), the orchestrator has deleted the main object and then the
  thumbnail object, and raises that error. If it is the \<open>ObjectOperationError\<close> of the
  main or of the thumbnail write, the orchestrator has deleted the metadata record, and
  raises that error.
\<close>

theorem create_rollback:
  assumes "compensated (create_uav_image sched faults create_thumbnail metadata image_bytes bkt nm bk)"
  shows
    "(gather_exc (create_uav_image sched faults create_thumbnail metadata image_bytes bkt nm bk)
        = Some MetadataOperationError \<or>
      (\<exists>a b. statuses (create_uav_image sched faults create_thumbnail metadata image_bytes bkt nm bk)
        = [Returned a, Raised MetadataOperationError, Returned b]) \<longrightarrow>
      map fst (log (create_uav_image sched faults create_thumbnail metadata image_bytes bkt nm bk))
        = [Delete_object \<lparr>bucket = bkt, name = nm\<rparr>,
           Delete_object (thumbnail_id \<lparr>bucket = bkt, name = nm\<rparr>)] \<and>
      pc (create_uav_image sched faults create_thumbnail metadata image_bytes bkt nm bk)
        = Responded (Inl MetadataOperationError)) \<and>
     (gather_exc (create_uav_image sched faults create_thumbnail metadata image_bytes bkt nm bk)
        = Some ObjectOperationError \<or>
      (\<exists>a b. statuses (create_uav_image sched faults create_thumbnail metadata image_bytes bkt nm bk)
        = [Raised ObjectOperationError, Returned a, Returned b]) \<or>
      (\<exists>a b. statuses (create_uav_image sched faults create_thumbnail metadata image_bytes bkt nm bk)
        = [Returned a, Returned b, Raised ObjectOperationError]) \<longrightarrow>
      map fst (log (create_uav_image sched faults create_thumbnail metadata image_bytes bkt nm bk))
        = [Metadata_delete \<lparr>bucket = bkt, name = nm\<rparr>] \<and>
      pc (create_uav_image sched faults create_thumbnail metadata image_bytes bkt nm bk)
        = Responded (Inl ObjectOperationError))"
proof -
  let ?id = "\<lparr>bucket = bkt, name = nm\<rparr>"
  let ?prog = "create_program create_thumbnail metadata image_bytes ?id"
  let ?fin = "run ?prog faults sched bk"
  have fin: "create_uav_image sched faults create_thumbnail metadata image_bytes bkt nm bk = ?fin"
    by (simp add: create_uav_image_def)
  have inv: "create_inv ?id ?fin"
    by (rule run_invariant [where I = "create_inv ?id", OF create_inv_init create_inv_step])
  obtain r where r: "pc ?fin = Responded r" using run_responds by blast
  from assms have comp: "compensated ?fin" by (simp add: fin)
  have key: "r = Inl e \<and> map fst (log ?fin) = rollback_calls ?id e" if "gather_exc ?fin = Some e" for e
    using inv r that comp unfolding create_inv_def by blast
  have first: "gather_exc ?fin = Some e"
    if "Raised e \<in> set (statuses ?fin)" "\<forall>e'. Raised e' \<in> set (statuses ?fin) \<longrightarrow> e' = e" for e
    using that by (rule only_failure_is_first)
  have m: "gather_exc ?fin = Some MetadataOperationError"
    if "\<exists>a b. statuses ?fin = [Returned a, Raised MetadataOperationError, Returned b]"
    using that by (intro first) auto
  have o: "gather_exc ?fin = Some ObjectOperationError"
    if "(\<exists>a b. statuses ?fin = [Raised ObjectOperationError, Returned a, Returned b]) \<or>
        (\<exists>a b. statuses ?fin = [Returned a, Returned b, Raised ObjectOperationError])"
    using that by (intro first) auto
  show ?thesis
    unfolding fin using key [of MetadataOperationError] key [of ObjectOperationError] m o r
    by (auto simp: rollback_calls_def)
qed

theorem create_rollback_witness:
  "compensated (create_uav_image [Task 0, Task 2, Task 1] metadata_add_fails (\<lambda>b. ''thumb'')
     example_metadata ''raw'' ''images'' ''abc'' empty_backends) \<and>
   statuses (create_uav_image [Task 0, Task 2, Task 1] metadata_add_fails (\<lambda>b. ''thumb'')
     example_metadata ''raw'' ''images'' ''abc'' empty_backends) =
     [Returned Done, Raised MetadataOperationError, Returned Done] \<and>
   map fst (log (create_uav_image [Task 0, Task 2, Task 1] metadata_add_fails (\<lambda>b. ''thumb'')
     example_metadata ''raw'' ''images'' ''abc'' empty_backends)) =
     [Delete_object \<lparr>bucket = ''images'', name = ''abc''\<rparr>,
      Delete_object (thumbnail_id \<lparr>bucket = ''images'', name = ''abc''\<rparr>)] \<and>
   pc (create_uav_image [Task 0, Task 2, Task 1] metadata_add_fails (\<lambda>b. ''thumb'')
     example_metadata ''raw'' ''images'' ''abc'' empty_backends) =
     Responded (Inl MetadataOperationError)"
proof -
  let ?fin = "create_uav_image [Task 0, Task 2, Task 1] metadata_add_fails (\<lambda>b. ''thumb'')
     example_metadata ''raw'' ''images'' ''abc'' empty_backends"
  have c: "compensated ?fin"
    unfolding create_compensated_run by (simp add: compensated_def succeeded_def)
  have s: "statuses ?fin = [Returned Done, Raised MetadataOperationError, Returned Done]"
    unfolding create_compensated_run by simp
  from create_rollback [OF c] s c show ?thesis by simp
qed

text \<open>
  Claim C1 as stated fails. The metadata add is refused and is the first task to
  complete; \<open>gather\<close> raises at once, and the coroutine deletes the main object before
  its write has taken place. The delete fails not-found: the thumbnail is not deleted,
  the endpoint raises \<open>KeyError\<close> in place of the original error, and the two writes
  that complete afterwards leave both objects behind. The metadata add is the only
  sub-operation that failed.
\<close>

theorem create_rollback_race:
  "statuses (create_uav_image [Task 1, Main, Main] metadata_add_fails (\<lambda>b. ''thumb'')
     example_metadata ''raw'' ''images'' ''abc'' empty_backends) =
     [Returned Done, Raised MetadataOperationError, Returned Done] \<and>
   log (create_uav_image [Task 1, Main, Main] metadata_add_fails (\<lambda>b. ''thumb'')
     example_metadata ''raw'' ''images'' ''abc'' empty_backends) =
     [(Delete_object \<lparr>bucket = ''images'', name = ''abc''\<rparr>, Inl KeyError)] \<and>
   pc (create_uav_image [Task 1, Main, Main] metadata_add_fails (\<lambda>b. ''thumb'')
     example_metadata ''raw'' ''images'' ''abc'' empty_backends) =
     Responded (Inl KeyError) \<and>
   object_store (stores (create_uav_image [Task 1, Main, Main] metadata_add_fails
     (\<lambda>b. ''thumb'') example_metadata ''raw'' ''images'' ''abc'' empty_backends))
     \<lparr>bucket = ''images'', name = ''abc''\<rparr> = Some ''raw'' \<and>
   object_store (stores (create_uav_image [Task 1, Main, Main] metadata_add_fails
     (\<lambda>b. ''thumb'') example_metadata ''raw'' ''images'' ''abc'' empty_backends))
     (thumbnail_id \<lparr>bucket = ''images'', name = ''abc''\<rparr>) = Some ''thumb''"
  unfolding create_race_run by (simp add: thumbnail_id_def)

text \<open>
  Claim C2 fails on the code. The main write is refused, after the metadata add and the
  thumbnail write have completed. The only compensating call, the delete of the metadata
  record, succeeds and the original error is raised; the thumbnail stays in the object
  store, where \<open>get_thumbnail\<close> finds it.
\<close>

theorem create_rollback_leaves_thumbnail:
  "statuses (create_uav_image [Task 1, Task 2, Task 0]
     (object_write_fails \<lparr>bucket = ''images'', name = ''abc''\<rparr>) (\<lambda>b. ''thumb'')
     example_metadata ''raw'' ''images'' ''abc'' empty_backends) =
     [Raised ObjectOperationError, Returned Done, Returned Done] \<and>
   log (create_uav_image [Task 1, Task 2, Task 0]
     (object_write_fails \<lparr>bucket = ''images'', name = ''abc''\<rparr>) (\<lambda>b. ''thumb'')
     example_metadata ''raw'' ''images'' ''abc'' empty_backends) =
     [(Metadata_delete \<lparr>bucket = ''images'', name = ''abc''\<rparr>, Inr Done)] \<and>
   pc (create_uav_image [Task 1, Task 2, Task 0]
     (object_write_fails \<lparr>bucket = ''images'', name = ''abc''\<rparr>) (\<lambda>b. ''thumb'')
     example_metadata ''raw'' ''images'' ''abc'' empty_backends) =
     Responded (Inl ObjectOperationError) \<and>
   get_thumbnail ''images'' ''abc'' (stores (create_uav_image [Task 1, Task 2, Task 0]
     (object_write_fails \<lparr>bucket = ''images'', name = ''abc''\<rparr>) (\<lambda>b. ''thumb'')
     example_metadata ''raw'' ''images'' ''abc'' empty_backends)) =
     Inr (StreamingResponse ''thumb'' ''image/jpeg'')"
  unfolding create_orphan_run by (simp add: get_thumbnail_def)

text \<open>
  Claim C6. Let the table have one row per key. Whatever the schedule: when the object
  or the metadata record is missing, \<open>delete_image\<close> answers 404; it answers with success
  exactly when both were there; in either case neither is there afterwards, so the side
  that was present has been deleted even when the answer is 404; and any second delete
  of the same \<open>ObjectRef\<close> answers 404.
\<close>

theorem delete_not_found:
  assumes "one_row_per_key (metadata_store bk)"
  shows
    "(object_store bk \<lparr>bucket = bkt, name = nm\<rparr> = None \<or>
      get \<lparr>bucket = bkt, name = nm\<rparr> (metadata_store bk) = Inl KeyError \<longrightarrow>
        pc (delete_image sched faults bkt nm bk) = Responded (Inl (HTTPException 404))) \<and>
     (pc (delete_image sched faults bkt nm bk) = Responded (Inr Null) \<longleftrightarrow>
        object_store bk \<lparr>bucket = bkt, name = nm\<rparr> \<noteq> None \<and>
        (\<exists>m. get \<lparr>bucket = bkt, name = nm\<rparr> (metadata_store bk) = Inr m)) \<and>
     object_store (stores (delete_image sched faults bkt nm bk)) \<lparr>bucket = bkt, name = nm\<rparr>
       = None \<and>
     get \<lparr>bucket = bkt, name = nm\<rparr> (metadata_store (stores (delete_image sched faults bkt nm bk)))
       = Inl KeyError \<and>
     pc (delete_image sched' faults' bkt nm (stores (delete_image sched faults bkt nm bk))) =
       Responded (Inl (HTTPException 404))"
proof -
  let ?id = "\<lparr>bucket = bkt, name = nm\<rparr>"
  let ?fin = "delete_image sched faults bkt nm bk"
  note r = delete_image_result [OF assms, of sched faults bkt nm]
  have wf': "one_row_per_key (metadata_store (stores ?fin))"
    using assms by (simp add: r one_row_per_key_filter)
  note r' = delete_image_result [OF wf', of sched' faults' bkt nm]
  have 1: "object_store bk ?id = None \<or> get ?id (metadata_store bk) = Inl KeyError \<longrightarrow>
        pc ?fin = Responded (Inl (HTTPException 404))"
    using assms by (auto simp: r delete_response_def get_KeyError_iff)
  have 2: "pc ?fin = Responded (Inr Null) \<longleftrightarrow>
        object_store bk ?id \<noteq> None \<and> (\<exists>m. get ?id (metadata_store bk) = Inr m)"
    using assms by (auto simp: r delete_response_def get_Inr_iff)
  have 3: "object_store (stores ?fin) ?id = None" by (simp add: r)
  have 4: "get ?id (metadata_store (stores ?fin)) = Inl KeyError"
    using wf' by (simp add: get_KeyError_iff) (simp add: r absent_after_filter)
  have 5: "pc (delete_image sched' faults' bkt nm (stores ?fin)) =
       Responded (Inl (HTTPException 404))"
    using 3 by (simp add: r' delete_response_def)
  from 1 2 3 4 5 show ?thesis by blast
qed

theorem delete_not_found_witness:
  "one_row_per_key (metadata_store
      \<lparr>object_store = [\<lparr>bucket = ''images'', name = ''abc''\<rparr> \<mapsto> ''raw''],
       metadata_store = []\<rparr>) \<and>
   object_store \<lparr>object_store = [\<lparr>bucket = ''images'', name = ''abc''\<rparr> \<mapsto> ''raw''],
       metadata_store = []\<rparr> \<lparr>bucket = ''images'', name = ''abc''\<rparr> = Some ''raw'' \<and>
   get \<lparr>bucket = ''images'', name = ''abc''\<rparr> (metadata_store
      \<lparr>object_store = [\<lparr>bucket = ''images'', name = ''abc''\<rparr> \<mapsto> ''raw''],
       metadata_store = []\<rparr>) = Inl KeyError \<and>
   pc (delete_image [Task 0, Task 1, Main] no_faults ''images'' ''abc''
      \<lparr>object_store = [\<lparr>bucket = ''images'', name = ''abc''\<rparr> \<mapsto> ''raw''],
       metadata_store = []\<rparr>) = Responded (Inl (HTTPException 404)) \<and>
   object_store (stores (delete_image [Task 0, Task 1, Main] no_faults ''images'' ''abc''
      \<lparr>object_store = [\<lparr>bucket = ''images'', name = ''abc''\<rparr> \<mapsto> ''raw''],
       metadata_store = []\<rparr>)) \<lparr>bucket = ''images'', name = ''abc''\<rparr> = None"
proof -
  let ?bk = "\<lparr>object_store = [\<lparr>bucket = ''images'', name = ''abc''\<rparr> \<mapsto> ''raw''],
       metadata_store = []\<rparr>"
  have wf: "one_row_per_key (metadata_store ?bk)" by (simp add: one_row_per_key_def)
  have g: "get \<lparr>bucket = ''images'', name = ''abc''\<rparr> (metadata_store ?bk) = Inl KeyError"
    by (simp add: get_def get_by_id_def)
  from delete_not_found [OF wf, of "''images''" "''abc''" "[Task 0, Task 1, Main]" no_faults]
    wf g
  show ?thesis by simp
qed

text \<open>
  Claim C7. Let the table have one row per key. Whatever the schedule of the two
  concurrent fetches: when the object or the metadata record is missing, \<open>get_image\<close>
  answers 404; when both are there, it answers with the stream stored under the
  \<open>ObjectRef\<close> and the MIME type of the format in its metadata record; an answer with a
  stream is never given otherwise, so the caller gets both or neither; the stores are
  left as they were; and at any point of any schedule at which the endpoint has
  answered, no task is left pending: each has completed or has been cancelled.
\<close>

theorem get_image_unit:
  assumes "one_row_per_key (metadata_store bk)"
  shows
    "(object_store bk \<lparr>bucket = bkt, name = nm\<rparr> = None \<or>
      get \<lparr>bucket = bkt, name = nm\<rparr> (metadata_store bk) = Inl KeyError \<longrightarrow>
        pc (get_image sched faults bkt nm bk) = Responded (Inl (HTTPException 404))) \<and>
     (\<forall>image_stream metadata.
        object_store bk \<lparr>bucket = bkt, name = nm\<rparr> = Some image_stream \<and>
        get \<lparr>bucket = bkt, name = nm\<rparr> (metadata_store bk) = Inr metadata \<longrightarrow>
          pc (get_image sched faults bkt nm bk) =
            Responded (Inr (StreamingResponse image_stream
                              (IMAGE_FORMAT_TO_MIME_TYPES (m_format metadata))))) \<and>
     (\<forall>r. pc (get_image sched faults bkt nm bk) = Responded (Inr r) \<longrightarrow>
        (\<exists>image_stream metadata.
           object_store bk \<lparr>bucket = bkt, name = nm\<rparr> = Some image_stream \<and>
           get \<lparr>bucket = bkt, name = nm\<rparr> (metadata_store bk) = Inr metadata \<and>
           r = StreamingResponse image_stream (IMAGE_FORMAT_TO_MIME_TYPES (m_format metadata)))) \<and>
     stores (get_image sched faults bkt nm bk) = bk \<and>
     (\<forall>prefix r.
        pc (exec (get_program \<lparr>bucket = bkt, name = nm\<rparr>) faults prefix
              (init (get_program \<lparr>bucket = bkt, name = nm\<rparr>) bk)) = Responded r \<longrightarrow>
        Pending \<notin> set (statuses (exec (get_program \<lparr>bucket = bkt, name = nm\<rparr>) faults prefix
              (init (get_program \<lparr>bucket = bkt, name = nm\<rparr>) bk))))"
proof -
  let ?id = "\<lparr>bucket = bkt, name = nm\<rparr>"
  let ?fin = "run (get_program ?id) faults sched bk"
  have fin: "get_image sched faults bkt nm bk = ?fin" by (simp add: get_image_def)
  have inv: "get_inv ?id bk ?fin"
    by (rule run_invariant [where I = "get_inv ?id bk", OF get_inv_init])
      (rule get_inv_step [OF assms])
  have mid: "get_inv ?id bk (exec (get_program ?id) faults prefix (init (get_program ?id) bk))"
    for prefix
    by (rule exec_invariant [where I = "get_inv ?id bk", OF get_inv_init])
      (rule get_inv_step [OF assms])
  obtain r where r: "pc ?fin = Responded r" using run_responds by blast
  with inv have res: "pc ?fin = Responded (get_response ?id bk)"
    by (auto simp: get_inv_def)
  from inv have st: "stores ?fin = bk" by (auto simp: get_inv_def)
  have 2: "\<forall>image_stream metadata.
        object_store bk ?id = Some image_stream \<and> get ?id (metadata_store bk) = Inr metadata \<longrightarrow>
          pc ?fin = Responded (Inr (StreamingResponse image_stream
                              (IMAGE_FORMAT_TO_MIME_TYPES (m_format metadata))))"
    using get_response_found [OF assms] res by auto
  have 5: "\<forall>prefix r.
        pc (exec (get_program ?id) faults prefix (init (get_program ?id) bk)) = Responded r \<longrightarrow>
        Pending \<notin> set (statuses (exec (get_program ?id) faults prefix
              (init (get_program ?id) bk)))"
  proof (intro allI impI)
    fix prefix r
    let ?mid = "exec (get_program ?id) faults prefix (init (get_program ?id) bk)"
    assume a: "pc ?mid = Responded r"
    from mid [of prefix] obtain s0 s1 where sts: "statuses ?mid = [s0, s1]"
      and p: "pc ?mid = Awaiting \<and> s0 \<noteq> Cancelled \<and> s1 \<noteq> Cancelled \<or>
         pc ?mid = Responded (get_response ?id bk) \<and> s0 \<noteq> Pending \<and> s1 \<noteq> Pending"
      unfolding get_inv_def by blast
    from a p have "r = get_response ?id bk" "s0 \<noteq> Pending" "s1 \<noteq> Pending" by auto
    with sts show "Pending \<notin> set (statuses ?mid)" by auto
  qed
  have 1: "object_store bk ?id = None \<or> get ?id (metadata_store bk) = Inl KeyError \<longrightarrow>
        pc ?fin = Responded (Inl (HTTPException 404))"
    using get_response_cases [OF assms, of ?id] res by simp
  have 3: "\<forall>r. pc ?fin = Responded (Inr r) \<longrightarrow>
        (\<exists>image_stream metadata.
           object_store bk ?id = Some image_stream \<and>
           get ?id (metadata_store bk) = Inr metadata \<and>
           r = StreamingResponse image_stream (IMAGE_FORMAT_TO_MIME_TYPES (m_format metadata)))"
    using get_response_cases [OF assms, of ?id] res by simp
  show ?thesis
    unfolding fin by (intro conjI 1 2 3 st 5)
qed

theorem get_image_unit_witness:
  "one_row_per_key (metadata_store object_only) \<and>
   get \<lparr>bucket = ''images'', name = ''abc''\<rparr> (metadata_store object_only) = Inl KeyError \<and>
   pc (get_image [Task 1, Main, Task 0] no_faults ''images'' ''abc'' object_only) =
     Responded (Inl (HTTPException 404)) \<and>
   statuses (exec (get_program \<lparr>bucket = ''images'', name = ''abc''\<rparr>) no_faults [Task 1, Main]
      (init (get_program \<lparr>bucket = ''images'', name = ''abc''\<rparr>) object_only)) =
     [Cancelled, Raised KeyError] \<and>
   one_row_per_key (metadata_store example_stores) \<and>
   object_store example_stores \<lparr>bucket = ''images'', name = ''abc''\<rparr> = Some ''raw'' \<and>
   get \<lparr>bucket = ''images'', name = ''abc''\<rparr> (metadata_store example_stores) =
     Inr example_metadata \<and>
   pc (get_image [Task 1, Main, Task 0] no_faults ''images'' ''abc'' example_stores) =
     Responded (Inr (StreamingResponse ''raw'' ''image/jpeg''))"
proof -
  have wf: "one_row_per_key (metadata_store object_only)"
    by (simp add: one_row_per_key_def object_only_def)
  have g: "get \<lparr>bucket = ''images'', name = ''abc''\<rparr> (metadata_store object_only) = Inl KeyError"
    by (simp add: get_def get_by_id_def object_only_def)
  have s: "statuses (exec (get_program \<lparr>bucket = ''images'', name = ''abc''\<rparr>) no_faults
      [Task 1, Main] (init (get_program \<lparr>bucket = ''images'', name = ''abc''\<rparr>) object_only)) =
      [Cancelled, Raised KeyError]"
    by (simp add: exec_def get_program_def init_def run_task_def run_main_def
        enter_handler_def get_def get_by_id_def Let_def object_only_def)
  have wf': "one_row_per_key (metadata_store example_stores)"
    by (simp add: one_row_per_key_def example_stores_def)
  have o': "object_store example_stores \<lparr>bucket = ''images'', name = ''abc''\<rparr> = Some ''raw''"
    by (simp add: example_stores_def)
  have h: "has_id \<lparr>bucket = ''images'', name = ''abc''\<rparr>
      (pydantic_to_orm_image \<lparr>bucket = ''images'', name = ''abc''\<rparr> example_metadata)"
    by (simp add: has_id_def pydantic_to_orm_image_def)
  have g': "get \<lparr>bucket = ''images'', name = ''abc''\<rparr> (metadata_store example_stores) =
     Inr example_metadata"
    by (simp add: get_def get_by_id_def example_stores_def h orm_roundtrip)
  have f: "m_format example_metadata = JPEG" by (simp add: example_metadata_def)
  note t1 = get_image_unit [OF wf, of "''images''" "''abc''" "[Task 1, Main, Task 0]" no_faults,
      THEN conjunct1]
  note t2 = get_image_unit [OF wf', of "''images''" "''abc''" "[Task 1, Main, Task 0]" no_faults,
      THEN conjunct2, THEN conjunct1]
  from t1 g have r1: "pc (get_image [Task 1, Main, Task 0] no_faults ''images'' ''abc''
      object_only) = Responded (Inl (HTTPException 404))"
    by blast
  from t2 o' g' have "pc (get_image [Task 1, Main, Task 0] no_faults ''images'' ''abc''
      example_stores) = Responded (Inr (StreamingResponse ''raw''
        (IMAGE_FORMAT_TO_MIME_TYPES (m_format example_metadata))))"
    by blast
  then have r2: "pc (get_image [Task 1, Main, Task 0] no_faults ''images'' ''abc''
      example_stores) = Responded (Inr (StreamingResponse ''raw'' ''image/jpeg''))"
    by (simp add: f)
  show ?thesis
    by (intro conjI wf g r1 s wf' o' g' r2)
qed

text \<open>
  Claim C8 fails on the code. An image is created and then deleted, both with success;
  \<open>delete_image\<close> deletes the object and the metadata record only, and \<open>get_thumbnail\<close>
  still returns the thumbnail afterwards. The identity of the thumbnail is the one the
  claim states (\<open>thumbnail_id_derived\<close>), and no run of \<open>delete_image\<close> touches the object
  under it (\<open>delete_image_keeps_thumbnail\<close>).
\<close>

theorem thumbnail_outlives_image:
  "pc (create_uav_image [] no_faults (\<lambda>b. ''thumb'') example_metadata ''raw'' ''images'' ''abc''
         empty_backends) = Responded (Inr (CreateResponse \<lparr>bucket = ''images'', name = ''abc''\<rparr>)) \<and>
   pc (delete_image [] no_faults ''images'' ''abc''
         (stores (create_uav_image [] no_faults (\<lambda>b. ''thumb'') example_metadata ''raw''
            ''images'' ''abc'' empty_backends))) = Responded (Inr Null) \<and>
   get_thumbnail ''images'' ''abc''
     (stores (delete_image [] no_faults ''images'' ''abc''
         (stores (create_uav_image [] no_faults (\<lambda>b. ''thumb'') example_metadata ''raw''
            ''images'' ''abc'' empty_backends)))) =
     Inr (StreamingResponse ''thumb'' ''image/jpeg'')"
proof -
  let ?id = "\<lparr>bucket = ''images'', name = ''abc''\<rparr>"
  let ?img = "pydantic_to_orm_image ?id example_metadata"
  let ?c = "create_uav_image [] no_faults (\<lambda>b. ''thumb'') example_metadata ''raw'' ''images''
      ''abc'' empty_backends"
  have c: "pc ?c = Responded (Inr (CreateResponse ?id))"
    "stores ?c = \<lparr>object_store = [?id \<mapsto> ''raw'', thumbnail_id ?id \<mapsto> ''thumb''],
        metadata_store = [?img]\<rparr>"
    by (simp_all add: create_uav_image_def create_program_def run_unfold exec_def init_def
        run_task_def run_main_def no_faults_def empty_backends_def add_def Let_def)
  have wf: "one_row_per_key (metadata_store (stores ?c))"
    by (simp add: c one_row_per_key_def)
  have h: "has_id ?id ?img" by (simp add: has_id_def pydantic_to_orm_image_def)
  have ne: "thumbnail_id ?id \<noteq> ?id" by (simp add: thumbnail_id_def)
  note d = delete_image_result [OF wf, of "[]" no_faults "''images''" "''abc''"]
  have d1: "pc (delete_image [] no_faults ''images'' ''abc'' (stores ?c)) = Responded (Inr Null)"
    unfolding d [THEN conjunct1] using h ne by (simp add: delete_response_def c)
  have d2: "get_thumbnail ''images'' ''abc''
     (stores (delete_image [] no_faults ''images'' ''abc'' (stores ?c))) =
     Inr (StreamingResponse ''thumb'' ''image/jpeg'')"
    unfolding d [THEN conjunct2] using ne by (simp add: get_thumbnail_def c)
  from c(1) d1 d2 show ?thesis by simp
qed

end
